theory Spec2Isabelle
  imports Complex_Main "HOL-Library.Multiset" "HOL-Library.Sublist" "HOL-Library.Product_Lexorder"
begin

section \<open>Data model of main.go\<close>

text \<open>
  A Go \<open>error\<close> value is modelled by its message; \<open>nil\<close> is \<open>None\<close> wherever the
  source stores an error in a field, and a call returning \<open>(v, err)\<close> is a sum with
  \<open>Inl err\<close> for \<open>err != nil\<close>.
\<close>

type_synonym go_error = string

text \<open>\<open>type Website struct\<close> (main.go, lines 17-20).\<close>

record Website =
  Name :: string
  URL :: string

text \<open>
  \<open>type PingResult struct\<close> (lines 48-56). \<open>AvgRtt\<close> is a \<open>time.Duration\<close>, a count of
  nanoseconds; \<open>PacketLoss\<close> is a float64 that the program only copies, modelled as a
  rational number whose zero value is 0.
\<close>

record PingResult =
  ping_URL :: string
  Domain :: string
  PacketsSent :: int
  PacketsRecv :: int
  PacketLoss :: rat
  AvgRtt :: int
  ping_Error :: "go_error option"

text \<open>
  \<open>type FetchResult struct\<close> (lines 59-66). \<open>BodySize\<close> is the float64
  \<open>float64(bodySize) / 1024 / 1024\<close>: a division of an integer by a power of two, exact
  in binary floating point for every length below \<open>2 ^ 53\<close>, modelled as a rational.
\<close>

record FetchResult =
  fetch_URL :: string
  StatusCode :: int
  BodyLength :: int
  BodySize :: rat
  fetch_Error :: "go_error option"
  Redirects :: "string list"

section \<open>The probing library as seen by pingUrl\<close>

text \<open>
  The fields of \<open>probing.Pinger\<close> that \<open>pingUrl\<close> sets, and the statistics it reads.
  \<open>Timeout\<close> is in nanoseconds.
\<close>

record Pinger =
  addr :: string
  Count :: int
  Timeout :: int
  privileged :: bool

record Statistics =
  stats_PacketsSent :: int
  stats_PacketsRecv :: int
  stats_PacketLoss :: rat
  stats_AvgRtt :: int

text \<open>
  The two library calls that can fail: \<open>probing.NewPinger(hostname)\<close>, and
  \<open>pinger.Run()\<close> followed by \<open>pinger.Statistics()\<close>. They are parameters of the model.
\<close>

record probing =
  NewPinger :: "string \<Rightarrow> go_error + Pinger"
  Run :: "Pinger \<Rightarrow> go_error + Statistics"

section \<open>pingUrl (lines 375-422)\<close>

text \<open>
  Lines 381-391: the hostname is the URL without a leading \<open>https://\<close> or \<open>http://\<close>
  and then without a leading \<open>www.\<close>; \<open>url[:8]\<close> is \<open>take 8 url\<close> and \<open>url[8:]\<close> is
  \<open>drop 8 url\<close>, both guarded by the length test as in the source.
\<close>

definition strip_scheme :: "string \<Rightarrow> string" where
  "strip_scheme url =
     (if length url > 8 \<and> take 8 url = ''https://'' then drop 8 url
      else if length url > 7 \<and> take 7 url = ''http://'' then drop 7 url
      else url)"

definition strip_www :: "string \<Rightarrow> string" where
  "strip_www hostname =
     (if length hostname > 4 \<and> take 4 hostname = ''www.'' then drop 4 hostname
      else hostname)"

definition hostname_of :: "string \<Rightarrow> string" where
  "hostname_of url = strip_www (strip_scheme url)"

text \<open>The value \<open>PingResult{URL: url}\<close>: every other field has Go's zero value.\<close>

definition new_PingResult :: "string \<Rightarrow> PingResult" where
  "new_PingResult url =
     \<lparr>ping_URL = url, Domain = [], PacketsSent = 0, PacketsRecv = 0, PacketLoss = 0,
      AvgRtt = 0, ping_Error = None\<rparr>"

text \<open>
  \<open>pingUrl\<close> sends exactly one result on the channel on each of its three paths; the
  model returns that result.
\<close>

definition pingUrl :: "probing \<Rightarrow> string \<Rightarrow> PingResult" where
  "pingUrl lib url =
     (let result = new_PingResult url;
          hostname = hostname_of url;
          result = result\<lparr>Domain := hostname\<rparr>
      in case NewPinger lib hostname of
           Inl err \<Rightarrow> result\<lparr>ping_Error := Some err\<rparr>
         | Inr pinger \<Rightarrow>
             (let pinger = pinger\<lparr>Count := 3, Timeout := 5 * 1000000000, privileged := True\<rparr>
              in case Run lib pinger of
                   Inl err \<Rightarrow> result\<lparr>ping_Error := Some err\<rparr>
                 | Inr stats \<Rightarrow>
                     result\<lparr>PacketsSent := stats_PacketsSent stats,
                            PacketsRecv := stats_PacketsRecv stats,
                            PacketLoss := stats_PacketLoss stats,
                            AvgRtt := stats_AvgRtt stats\<rparr>))"

section \<open>fetchData (lines 424-462)\<close>

text \<open>
  An \<open>http.Response\<close>: its status code, its header (\<open>map[string][]string\<close>) and its body.
  The body is given by what \<open>io.ReadAll\<close> returns on it: the bytes, or the read error.
\<close>

record Response =
  resp_StatusCode :: int
  Header :: "string \<rightharpoonup> string list"
  Body :: "go_error + string"

text \<open>\<open>Header.Get\<close>: the first value stored under the key, the empty string if none.\<close>

definition Header_Get :: "(string \<rightharpoonup> string list) \<Rightarrow> string \<Rightarrow> string" where
  "Header_Get h key = (case h key of None \<Rightarrow> [] | Some [] \<Rightarrow> [] | Some (v # _) \<Rightarrow> v)"

definition ReadAll :: "go_error + string \<Rightarrow> go_error + string" where
  "ReadAll body = body"

text \<open>
  \<open>http.Get\<close> is a parameter: from the state of the network \<open>'w\<close> and a URL it gives the
  error or the response, and the next state of the network. So a server may answer the
  same URL differently from one request to the next.
\<close>

type_synonym 'w http_Get = "'w \<Rightarrow> string \<Rightarrow> (go_error + Response) \<times> 'w"

definition new_FetchResult :: "string \<Rightarrow> FetchResult" where
  "new_FetchResult url =
     \<lparr>fetch_URL = url, StatusCode = 0, BodyLength = 0, BodySize = 0, fetch_Error = None,
      Redirects = []\<rparr>"

text \<open>The test of the loop at line 437, named for use in the statements below.\<close>

definition is_redirect :: "Response \<Rightarrow> bool" where
  "is_redirect resp \<longleftrightarrow> resp_StatusCode resp = 301 \<or> resp_StatusCode resp = 302"

text \<open>
  The loop of lines 437-445. It has no bound, so it is a partial function: \<open>None\<close> is a
  loop that never ends. It returns the result built so far, the responses received so far
  (a ghost value: every response received carries an open body) and either the error of
  the failed GET or the first response that is not a 301 or 302.
\<close>

partial_function (option) follow_redirects ::
  "'w http_Get \<Rightarrow> 'w \<Rightarrow> Response \<Rightarrow> FetchResult \<Rightarrow> Response list
     \<Rightarrow> (FetchResult \<times> Response list \<times> (go_error + Response)) option" where
  "follow_redirects get w resp result opened =
     (if resp_StatusCode resp = 301 \<or> resp_StatusCode resp = 302 then
        (let location = Header_Get (Header resp) ''Location'';
             result' = result\<lparr>Redirects := Redirects result @ [location]\<rparr>
         in case get w location of
              (Inl err, w') \<Rightarrow> Some (result', opened, Inl err)
            | (Inr resp', w') \<Rightarrow> follow_redirects get w' resp' result' (opened @ [resp']))
      else Some (result, opened, Inr resp))"

declare follow_redirects.simps [code]

text \<open>
  What one call of \<open>fetchData\<close> leaves behind: the result it sends on the channel, the
  responses whose bodies it opened and the responses whose bodies it closed.
\<close>

record fetch_run =
  sent :: FetchResult
  opened_bodies :: "Response list"
  closed_bodies :: "Response list"

text \<open>
  \<open>defer resp.Body.Close()\<close> is at line 447, after the loop: it closes the body of the
  response the loop ended with, on both paths that follow it, and nothing else.
\<close>

definition fetchData :: "'w http_Get \<Rightarrow> 'w \<Rightarrow> string \<Rightarrow> fetch_run option" where
  "fetchData get w url =
     (let result = new_FetchResult url
      in case get w url of
           (Inl err, w') \<Rightarrow>
             Some \<lparr>sent = result\<lparr>fetch_Error := Some err\<rparr>, opened_bodies = [], closed_bodies = []\<rparr>
         | (Inr resp, w') \<Rightarrow>
             (case follow_redirects get w' resp result [resp] of
                None \<Rightarrow> None
              | Some (result, opened, Inl err) \<Rightarrow>
                  Some \<lparr>sent = result\<lparr>fetch_Error := Some err\<rparr>, opened_bodies = opened,
                        closed_bodies = []\<rparr>
              | Some (result, opened, Inr resp) \<Rightarrow>
                  (case ReadAll (Body resp) of
                     Inl err \<Rightarrow>
                       Some \<lparr>sent = result\<lparr>fetch_Error := Some err\<rparr>, opened_bodies = opened,
                             closed_bodies = [resp]\<rparr>
                   | Inr body \<Rightarrow>
                       (let bodySize = int (length body)
                        in Some \<lparr>sent = result\<lparr>StatusCode := resp_StatusCode resp,
                                                 BodyLength := bodySize,
                                                 BodySize := of_int bodySize / 1024 / 1024\<rparr>,
                                 opened_bodies = opened, closed_bodies = [resp]\<rparr>))))"

section \<open>http.Get\<close>

text \<open>
  \<open>http.Get\<close> belongs to Go's standard library, and \<open>fetchData\<close> calls the one of the
  default client. What the documentation of \<open>net/http\<close> says of it, as far as
  \<open>fetchData\<close> depends on it: it follows a redirect itself, so a 301 or 302 comes back
  to the caller only when it has no \<open>Location\<close> to follow; and a URL without a scheme,
  the empty string among them, is refused with an error.
\<close>

definition Location :: "Response \<Rightarrow> string" where
  "Location resp = Header_Get (Header resp) ''Location''"

definition go_like :: "'w http_Get \<Rightarrow> bool" where
  "go_like get \<longleftrightarrow>
     (\<forall>w url resp w'. get w url = (Inr resp, w') \<longrightarrow> is_redirect resp \<longrightarrow> Location resp = [])
     \<and> (\<forall>w. \<exists>err w'. get w [] = (Inl err, w'))"

text \<open>
  A stand-in for \<open>http.Get\<close> to run the definitions on: the default client in front of a
  server. The server answers one request at a time from its own state. The client
  refuses the empty URL, follows an answer 301, 302, 303, 307 or 308 that carries a
  \<open>Location\<close>, gives up with an error at the tenth such answer, and hands every other
  answer back. (A \<open>Location\<close> is taken as the next URL as it is. The client closes the
  body of an answer it follows; the open bodies that concern \<open>fetchData\<close> are those of
  the answers handed back to it.)
\<close>

type_synonym 's server = "'s \<Rightarrow> string \<Rightarrow> (go_error + Response) \<times> 's"

definition follows :: "Response \<Rightarrow> bool" where
  "follows resp \<longleftrightarrow> resp_StatusCode resp \<in> {301, 302, 303, 307, 308} \<and> Location resp \<noteq> []"

fun client_do :: "nat \<Rightarrow> 's server \<Rightarrow> 's \<Rightarrow> string \<Rightarrow> (go_error + Response) \<times> 's" where
  "client_do 0 serve s url = (Inl ''stopped after 10 redirects'', s)"
| "client_do (Suc n) serve s url =
     (case serve s url of
        (Inl err, s') \<Rightarrow> (Inl err, s')
      | (Inr resp, s') \<Rightarrow>
          (if follows resp then client_do n serve s' (Location resp) else (Inr resp, s')))"

definition default_Get :: "'s server \<Rightarrow> 's http_Get" where
  "default_Get serve s url =
     (if url = [] then (Inl ''unsupported protocol scheme'', s) else client_do 10 serve s url)"

text \<open>
  A server in the manner of a mock server: its state is the list of answers still to
  give, handed out one per request whatever the URL. \<open>scripted\<close> is \<open>http.Get\<close> in front
  of it.
\<close>

definition script :: "(go_error + Response) list server" where
  "script s url = (case s of [] \<Rightarrow> (Inl ''connection refused'', []) | r # rs \<Rightarrow> (r, rs))"

definition scripted :: "(go_error + Response) list http_Get" where
  "scripted = default_Get script"

definition redirect_to :: "int \<Rightarrow> string \<Rightarrow> Response" where
  "redirect_to code location =
     \<lparr>resp_StatusCode = code, Header = [''Location'' \<mapsto> [location]], Body = Inr []\<rparr>"

definition page :: "int \<Rightarrow> string \<Rightarrow> Response" where
  "page code body = \<lparr>resp_StatusCode = code, Header = Map.empty, Body = Inr body\<rparr>"

text \<open>
  A resolver that knows no host, a server that answers every request with a 301 to the
  same place (a cyclic redirect), and a 301 without a \<open>Location\<close> header.
\<close>

definition no_such_host :: probing where
  "no_such_host = \<lparr>NewPinger = (\<lambda>hostname. Inl ''no such host''),
                   Run = (\<lambda>pinger. Inl ''not run'')\<rparr>"


definition moved_nowhere :: Response where
  "moved_nowhere = \<lparr>resp_StatusCode = 301, Header = Map.empty, Body = Inr []\<rparr>"

text \<open>
  What the successive calls of \<open>http.Get\<close> returned, said without \<open>fetchData\<close>: starting
  with the GET of \<open>url\<close> in the state \<open>w\<close>, the 301 and 302 responses \<open>rs\<close> came back one
  after the other, each GET after the first being that of the \<open>Location\<close> of the response
  before, and then \<open>out\<close> came back: an error, or a response that is no 301 or 302.
\<close>

fun returned :: "'w http_Get \<Rightarrow> 'w \<Rightarrow> string \<Rightarrow> Response list \<Rightarrow> go_error + Response \<Rightarrow> bool" where
  "returned get w url [] out \<longleftrightarrow>
     fst (get w url) = out \<and> (case out of Inl err \<Rightarrow> True | Inr resp \<Rightarrow> \<not> is_redirect resp)"
| "returned get w url (resp # rs) out \<longleftrightarrow>
     fst (get w url) = Inr resp \<and> is_redirect resp
     \<and> returned get (snd (get w url)) (Location resp) rs out"

section \<open>The two phases of main (lines 128-141 and 165-178)\<close>

text \<open>
  A phase starts one goroutine per website and then receives \<open>len(urls)\<close> values from a
  channel of capacity \<open>len(urls)\<close>. The state of a phase: the goroutines that have not
  sent yet, each given by the result it will send (\<open>None\<close> for one that never returns),
  the contents of the channel, the slice \<open>allPingResults\<close> or \<open>allFetchResults\<close>, and the
  loop counter \<open>i\<close>.
\<close>

record 'r phase =
  units :: "'r option list"
  channel :: "'r list"
  allResults :: "'r list"
  loop_i :: nat

text \<open>
  The scheduler picks what happens next: goroutine number \<open>k\<close> of those still running
  sends its result, or the loop of main receives one value and appends it.
\<close>

datatype event = Send nat | Receive

text \<open>
  One event, with \<open>n = len(urls)\<close>; \<open>None\<close> when the event cannot happen in this state
  (a send on a full channel, a goroutine that never returns, a receive on an empty
  channel, or the loop being over).
\<close>

fun step :: "nat \<Rightarrow> event \<Rightarrow> 'r phase \<Rightarrow> 'r phase option" where
  "step n (Send k) s =
     (if k < length (units s) \<and> length (channel s) < n then
        (case units s ! k of
           None \<Rightarrow> None
         | Some r \<Rightarrow>
             Some (s\<lparr>units := take k (units s) @ drop (Suc k) (units s),
                      channel := channel s @ [r]\<rparr>))
      else None)"
| "step n Receive s =
     (if loop_i s < n then
        (case channel s of
           [] \<Rightarrow> None
         | result # rest \<Rightarrow>
             Some (s\<lparr>channel := rest, allResults := allResults s @ [result],
                      loop_i := Suc (loop_i s)\<rparr>))
      else None)"

fun run :: "nat \<Rightarrow> event list \<Rightarrow> 'r phase \<Rightarrow> 'r phase option" where
  "run n [] s = Some s"
| "run n (e # es) s = (case step n e s of None \<Rightarrow> None | Some s' \<Rightarrow> run n es s')"

definition start :: "'r option list \<Rightarrow> 'r phase" where
  "start us = \<lparr>units = us, channel = [], allResults = [], loop_i = 0\<rparr>"

definition ping_units :: "probing \<Rightarrow> Website list \<Rightarrow> PingResult option list" where
  "ping_units lib urls = map (\<lambda>url. Some (pingUrl lib (URL url))) urls"

text \<open>
  Each fetch goroutine sees the network from a state of its own (\<open>ws\<close>, one per website):
  the goroutines share no variable of the program.
\<close>

definition fetch_units ::
  "'w http_Get \<Rightarrow> 'w list \<Rightarrow> Website list \<Rightarrow> FetchResult option list" where
  "fetch_units get ws urls =
     map (\<lambda>(w, url). map_option sent (fetchData get w (URL url))) (zip ws urls)"

section \<open>The two rankings of main (lines 144-154 and 181-191)\<close>

text \<open>
  The \<open>less\<close> closures given to \<open>sort.Slice\<close>, as relations between the two elements
  found at the indices \<open>i\<close> and \<open>j\<close>.
\<close>

definition pingLess :: "PingResult \<Rightarrow> PingResult \<Rightarrow> bool" where
  "pingLess a b =
     (if ping_Error a \<noteq> None then False
      else if ping_Error b \<noteq> None then True
      else AvgRtt a > AvgRtt b)"

definition fetchLess :: "FetchResult \<Rightarrow> FetchResult \<Rightarrow> bool" where
  "fetchLess a b =
     (if fetch_Error a \<noteq> None then False
      else if fetch_Error b \<noteq> None then True
      else BodySize a > BodySize b)"

text \<open>
  \<open>sort.Slice\<close> belongs to Go's standard library. Its documentation promises that the
  slice is sorted by \<open>less\<close> in place, and says that the sort is not guaranteed to be
  stable. The model is that contract: \<open>ys\<close> may be the slice after \<open>sort.Slice\<close> was
  given \<open>xs\<close> when it has the same elements and no element is followed by one that is
  \<open>less\<close> than it (\<open>lt\<close> stands for the closure \<open>less\<close>).
\<close>

definition sort_Slice_post :: "('a \<Rightarrow> 'a \<Rightarrow> bool) \<Rightarrow> 'a list \<Rightarrow> 'a list \<Rightarrow> bool" where
  "sort_Slice_post lt xs ys \<longleftrightarrow> mset ys = mset xs \<and> sorted_wrt (\<lambda>a b. \<not> lt b a) ys"

text \<open>Two elements that the closure does not tell apart.\<close>

definition equivalent :: "('a \<Rightarrow> 'a \<Rightarrow> bool) \<Rightarrow> 'a \<Rightarrow> 'a \<Rightarrow> bool" where
  "equivalent lt a b \<longleftrightarrow> \<not> lt a b \<and> \<not> lt b a"

text \<open>
  Stability, as the specification words it: the elements equivalent to any given one are
  in \<open>ys\<close> in the order they had in \<open>xs\<close>.
\<close>

definition order_preserved :: "('a \<Rightarrow> 'a \<Rightarrow> bool) \<Rightarrow> 'a list \<Rightarrow> 'a list \<Rightarrow> bool" where
  "order_preserved lt xs ys \<longleftrightarrow>
     (\<forall>x \<in> set xs. filter (equivalent lt x) ys = filter (equivalent lt x) xs)"

section \<open>sort.Slice\<close>

text \<open>
  \<open>sort.Slice\<close> belongs to Go's standard library: since Go 1.19 it is \<open>pdqsort_func\<close> of
  package \<open>sort\<close>, run on the whole slice. What follows renders that function for slices
  of at most 13 elements, with the slice as a list and \<open>data.Less(i, j)\<close> as
  \<open>lt (data ! i) (data ! j)\<close>. Up to 12 elements \<open>pdqsort_func\<close> is \<open>insertionSort_func\<close>.
  With 13 elements it goes once through its loop: \<open>choosePivot_func\<close> (below 50 elements
  the median of three), \<open>partialInsertionSort_func\<close> when no swap was counted (below 50
  elements it only tests whether the slice is sorted already), \<open>partition_func\<close>, and
  then itself on the two parts, which have at most 12 elements and so are sorted by
  \<open>insertionSort_func\<close>. The branches for a spent limit, an unbalanced partition and
  \<open>a > 0\<close> are not reached on that pass. Longer slices are not rendered: \<open>None\<close>.
\<close>

definition Swap :: "'a list \<Rightarrow> nat \<Rightarrow> nat \<Rightarrow> 'a list" where
  "Swap data i j = data[i := data ! j, j := data ! i]"

text \<open>
  \<open>insertionSort_func(data, a, b)\<close>: \<open>sift\<close> is its inner loop, which moves the element at
  \<open>j\<close> down while it is less than the one before it; \<open>insertion_from\<close> is its outer loop.
\<close>

fun sift :: "('a \<Rightarrow> 'a \<Rightarrow> bool) \<Rightarrow> nat \<Rightarrow> 'a list \<Rightarrow> nat \<Rightarrow> 'a list" where
  "sift lt a data 0 = data"
| "sift lt a data (Suc j) =
     (if Suc j > a \<and> lt (data ! Suc j) (data ! j) then sift lt a (Swap data (Suc j) j) j
      else data)"

function insertion_from ::
  "('a \<Rightarrow> 'a \<Rightarrow> bool) \<Rightarrow> nat \<Rightarrow> nat \<Rightarrow> 'a list \<Rightarrow> nat \<Rightarrow> 'a list" where
  "insertion_from lt a b data i =
     (if i < b then insertion_from lt a b (sift lt a data i) (Suc i) else data)"
  by pat_completeness auto
termination
  by (relation "measure (\<lambda>(lt, a, b, data, i). b - i)") auto

declare insertion_from.simps [simp del]

definition insertionSort_func :: "('a \<Rightarrow> 'a \<Rightarrow> bool) \<Rightarrow> 'a list \<Rightarrow> nat \<Rightarrow> nat \<Rightarrow> 'a list" where
  "insertionSort_func lt data a b = insertion_from lt a b data (a + 1)"

text \<open>\<open>choosePivot_func\<close> with \<open>order2_func\<close> and \<open>median_func\<close>, for fewer than 50 elements.\<close>

datatype sortedHint = unknownHint | increasingHint | decreasingHint

definition order2_func ::
  "('a \<Rightarrow> 'a \<Rightarrow> bool) \<Rightarrow> 'a list \<Rightarrow> nat \<Rightarrow> nat \<Rightarrow> nat \<Rightarrow> nat \<times> nat \<times> nat" where
  "order2_func lt data a b swaps =
     (if lt (data ! b) (data ! a) then (b, a, swaps + 1) else (a, b, swaps))"

definition median_func ::
  "('a \<Rightarrow> 'a \<Rightarrow> bool) \<Rightarrow> 'a list \<Rightarrow> nat \<Rightarrow> nat \<Rightarrow> nat \<Rightarrow> nat \<Rightarrow> nat \<times> nat" where
  "median_func lt data a b c swaps =
     (case order2_func lt data a b swaps of (a, b, swaps) \<Rightarrow>
      case order2_func lt data b c swaps of (b, c, swaps) \<Rightarrow>
      case order2_func lt data a b swaps of (a, b, swaps) \<Rightarrow> (b, swaps))"

definition choosePivot_func ::
  "('a \<Rightarrow> 'a \<Rightarrow> bool) \<Rightarrow> 'a list \<Rightarrow> nat \<Rightarrow> nat \<Rightarrow> nat \<times> sortedHint" where
  "choosePivot_func lt data a b =
     (let l = b - a;
          i = a + l div 4 * 1;
          j = a + l div 4 * 2;
          k = a + l div 4 * 3
      in case (if l \<ge> 8 then median_func lt data i j k 0 else (j, 0)) of
           (j, swaps) \<Rightarrow>
             (j, if swaps = 0 then increasingHint
                 else if swaps = 4 * 3 then decreasingHint
                 else unknownHint))"

definition reverseRange_func :: "'a list \<Rightarrow> nat \<Rightarrow> nat \<Rightarrow> 'a list" where
  "reverseRange_func data a b = take a data @ rev (take (b - a) (drop a data)) @ drop b data"

text \<open>
  \<open>partialInsertionSort_func\<close> for fewer than 50 elements: it runs to the first element
  that is less than the one before it, and reports whether there is none.
\<close>

function first_descent :: "('a \<Rightarrow> 'a \<Rightarrow> bool) \<Rightarrow> 'a list \<Rightarrow> nat \<Rightarrow> nat \<Rightarrow> nat" where
  "first_descent lt data b i =
     (if i < b \<and> \<not> lt (data ! i) (data ! (i - 1)) then first_descent lt data b (Suc i) else i)"
  by pat_completeness auto
termination
  by (relation "measure (\<lambda>(lt, data, b, i). b - i)") auto

declare first_descent.simps [simp del]

definition partialInsertionSort_func :: "('a \<Rightarrow> 'a \<Rightarrow> bool) \<Rightarrow> 'a list \<Rightarrow> nat \<Rightarrow> nat \<Rightarrow> bool" where
  "partialInsertionSort_func lt data a b \<longleftrightarrow> first_descent lt data b (a + 1) = b"

text \<open>
  \<open>partition_func\<close>: \<open>scan_up\<close> and \<open>scan_down\<close> are its two inner loops (\<open>i++\<close> while the
  element is less than the pivot at \<open>a\<close>, \<open>j--\<close> while it is not), \<open>partition_loop\<close> its
  \<open>for\<close> loop.
\<close>

function scan_up :: "('a \<Rightarrow> 'a \<Rightarrow> bool) \<Rightarrow> 'a list \<Rightarrow> nat \<Rightarrow> nat \<Rightarrow> nat \<Rightarrow> nat" where
  "scan_up lt data a i j =
     (if i \<le> j \<and> lt (data ! i) (data ! a) then scan_up lt data a (Suc i) j else i)"
  by pat_completeness auto
termination
  by (relation "measure (\<lambda>(lt, data, a, i, j). Suc j - i)") auto

declare scan_up.simps [simp del]

fun scan_down :: "('a \<Rightarrow> 'a \<Rightarrow> bool) \<Rightarrow> 'a list \<Rightarrow> nat \<Rightarrow> nat \<Rightarrow> nat \<Rightarrow> nat" where
  "scan_down lt data a i 0 = 0"
| "scan_down lt data a i (Suc j) =
     (if i \<le> Suc j \<and> \<not> lt (data ! Suc j) (data ! a) then scan_down lt data a i j else Suc j)"

function partition_loop ::
  "('a \<Rightarrow> 'a \<Rightarrow> bool) \<Rightarrow> 'a list \<Rightarrow> nat \<Rightarrow> nat \<Rightarrow> nat \<Rightarrow> 'a list \<times> nat" where
  "partition_loop lt data a i j =
     (let i' = scan_up lt data a i j;
          j' = scan_down lt data a i' j
      in if i' > j' then (data, j')
         else partition_loop lt (Swap data i' j') a (Suc i') (j' - 1))"
  by pat_completeness auto
termination
proof -
  have up: "i \<le> scan_up lt data a i j" for lt :: "'a \<Rightarrow> 'a \<Rightarrow> bool" and data a i j
  proof (induction lt data a i j rule: scan_up.induct)
    case (1 lt data a i j)
    show ?case
    proof (cases "i \<le> j \<and> lt (data ! i) (data ! a)")
      case True
      with 1 have "Suc i \<le> scan_up lt data a (Suc i) j" by simp
      with True show ?thesis by (subst scan_up.simps) simp
    next
      case False
      show ?thesis by (subst scan_up.simps) (simp only: False if_False order_refl)
    qed
  qed
  have down: "scan_down lt data a i j \<le> j" for lt :: "'a \<Rightarrow> 'a \<Rightarrow> bool" and data a i j
    by (induction j) auto
  show ?thesis
  proof (relation "measure (\<lambda>(lt, data, a, i, j). Suc j - i)", goal_cases)
    case 1
    show ?case by simp
  next
    case (2 lt data a i j i' j')
    with up [of i lt data a j] down [of lt data a i' j] show ?case by auto
  qed
qed

declare partition_loop.simps [simp del]

definition partition_func ::
  "('a \<Rightarrow> 'a \<Rightarrow> bool) \<Rightarrow> 'a list \<Rightarrow> nat \<Rightarrow> nat \<Rightarrow> nat \<Rightarrow> 'a list \<times> nat \<times> bool" where
  "partition_func lt data a b pivot =
     (let data = Swap data a pivot;
          i = scan_up lt data a (a + 1) (b - 1);
          j = scan_down lt data a i (b - 1)
      in if i > j then (Swap data j a, j, True)
         else (case partition_loop lt (Swap data i j) a (Suc i) (j - 1) of
                 (data, j) \<Rightarrow> (Swap data j a, j, False)))"

text \<open>The pass of \<open>pdqsort_func(data, 0, len, limit)\<close> for 13 elements, and \<open>sort.Slice\<close>.\<close>

definition pdqsort_func :: "('a \<Rightarrow> 'a \<Rightarrow> bool) \<Rightarrow> 'a list \<Rightarrow> 'a list" where
  "pdqsort_func lt data =
     (let a = 0; b = length data
      in case choosePivot_func lt data a b of
           (pivot, hint) \<Rightarrow>
      case (if hint = decreasingHint
            then (reverseRange_func data a b, (b - 1) - (pivot - a), increasingHint)
            else (data, pivot, hint)) of
           (data, pivot, hint) \<Rightarrow>
      if hint = increasingHint \<and> partialInsertionSort_func lt data a b then data
      else case partition_func lt data a b pivot of
             (data, mid, alreadyPartitioned) \<Rightarrow>
               if mid - a < b - mid
               then insertionSort_func lt (insertionSort_func lt data a mid) (mid + 1) b
               else insertionSort_func lt (insertionSort_func lt data (mid + 1) b) a mid)"

definition sort_Slice :: "('a \<Rightarrow> 'a \<Rightarrow> bool) \<Rightarrow> 'a list \<Rightarrow> 'a list option" where
  "sort_Slice lt x =
     (if length x \<le> 12 then Some (insertionSort_func lt x 0 (length x))
      else if length x = 13 then Some (pdqsort_func lt x)
      else None)"


section \<open>Auxiliary definitions for the proofs\<close>

text \<open>
  What every state of a phase satisfies: each goroutine's result is in exactly one place
  (not yet sent, in the channel, or collected), and \<open>i\<close> counts the collected ones.
\<close>

definition phase_inv :: "'r option list \<Rightarrow> 'r phase \<Rightarrow> bool" where
  "phase_inv us s \<longleftrightarrow>
     mset (units s) + mset (map Some (channel s)) + mset (map Some (allResults s)) = mset us
     \<and> length (allResults s) = loop_i s"

text \<open>
  The keys by which the two closures order: outcomes without an error first, by
  decreasing \<open>AvgRtt\<close> or \<open>BodySize\<close>, then all outcomes with an error.
\<close>

definition pingKey :: "PingResult \<Rightarrow> nat \<times> int" where
  "pingKey a = (case ping_Error a of None \<Rightarrow> (0, - AvgRtt a) | Some err \<Rightarrow> (1, 0))"

definition fetchKey :: "FetchResult \<Rightarrow> nat \<times> rat" where
  "fetchKey a = (case fetch_Error a of None \<Rightarrow> (0, - BodySize a) | Some err \<Rightarrow> (1, 0))"

text \<open>
  Insertion at the end of a list, as \<open>sift\<close> does it on the slice: \<open>insr\<close> on the list
  read backwards, \<open>insl\<close> on the list itself.
\<close>

fun insr :: "('a \<Rightarrow> 'a \<Rightarrow> bool) \<Rightarrow> 'a \<Rightarrow> 'a list \<Rightarrow> 'a list" where
  "insr lt x [] = [x]"
| "insr lt x (y # ys) = (if lt x y then y # insr lt x ys else x # y # ys)"

definition insl :: "('a \<Rightarrow> 'a \<Rightarrow> bool) \<Rightarrow> 'a list \<Rightarrow> 'a \<Rightarrow> 'a list" where
  "insl lt xs x = rev (insr lt x (rev xs))"

text \<open>Outcomes and a configuration to run the definitions on.\<close>

definition ping_ok :: "string \<Rightarrow> int \<Rightarrow> PingResult" where
  "ping_ok url rtt =
     (new_PingResult url)\<lparr>Domain := hostname_of url, PacketsSent := 3, PacketsRecv := 3,
                           AvgRtt := rtt\<rparr>"

definition ping_failed :: "string \<Rightarrow> PingResult" where
  "ping_failed url =
     (new_PingResult url)\<lparr>Domain := hostname_of url, ping_Error := Some ''no such host''\<rparr>"

definition fetch_ok :: "string \<Rightarrow> nat \<Rightarrow> FetchResult" where
  "fetch_ok url n =
     (new_FetchResult url)\<lparr>StatusCode := 200, BodyLength := int n,
                            BodySize := of_int (int n) / 1024 / 1024\<rparr>"

definition fetch_failed :: "string \<Rightarrow> FetchResult" where
  "fetch_failed url = (new_FetchResult url)\<lparr>fetch_Error := Some ''connection refused''\<rparr>"

definition two_sites :: "Website list" where
  "two_sites = [\<lparr>Name = ''A'', URL = ''https://www.a.example''\<rparr>,
                \<lparr>Name = ''B'', URL = ''http://b.example''\<rparr>]"

section \<open>The hostname as the specification words it\<close>

text \<open>
  Strip a literal \<open>https://\<close> or \<open>http://\<close> prefix, then a literal \<open>www.\<close> prefix if
  present; anything else passes through unchanged.
\<close>

definition spec_domain :: "string \<Rightarrow> string" where
  "spec_domain url =
     (let rest = (if prefix ''https://'' url then drop 8 url
                  else if prefix ''http://'' url then drop 7 url
                  else url)
      in if prefix ''www.'' rest then drop 4 rest else rest)"

section \<open>Results about pingUrl\<close>

lemma prefix_take_iff: "prefix p s \<longleftrightarrow> length p \<le> length s \<and> take (length p) s = p"
  by (metis append_eq_conv_conj append_take_drop_id prefix_def prefix_length_le)

lemma prefix_https: "prefix ''https://'' s \<longleftrightarrow> 8 \<le> length s \<and> take 8 s = ''https://''"
proof -
  have l: "length ''https://'' = 8" by simp
  show ?thesis using prefix_take_iff [of "''https://''" s] unfolding l by blast
qed

lemma prefix_http: "prefix ''http://'' s \<longleftrightarrow> 7 \<le> length s \<and> take 7 s = ''http://''"
proof -
  have l: "length ''http://'' = 7" by simp
  show ?thesis using prefix_take_iff [of "''http://''" s] unfolding l by blast
qed

lemma prefix_www: "prefix ''www.'' s \<longleftrightarrow> 4 \<le> length s \<and> take 4 s = ''www.''"
proof -
  have l: "length ''www.'' = 4" by simp
  show ?thesis using prefix_take_iff [of "''www.''" s] unfolding l by blast
qed

lemma take_all_eq: "length s = n \<Longrightarrow> take n s = p \<Longrightarrow> s = p"
  by simp

lemma strip_scheme_spec:
  "url \<noteq> ''https://'' \<Longrightarrow> url \<noteq> ''http://'' \<Longrightarrow>
   strip_scheme url = (if prefix ''https://'' url then drop 8 url
                  else if prefix ''http://'' url then drop 7 url
                  else url)"
  unfolding strip_scheme_def prefix_https prefix_http
  using take_all_eq [of url 8 "''https://''"] take_all_eq [of url 7 "''http://''"]
  by (auto simp: le_less)

lemma strip_www_spec:
  "h \<noteq> ''www.'' \<Longrightarrow> strip_www h = (if prefix ''www.'' h then drop 4 h else h)"
  unfolding strip_www_def prefix_www
  using take_all_eq [of h 4 "''www.''"]
  by (auto simp: le_less)

text \<open>
  Claim C8, as amended. The hostname computed by \<open>pingUrl\<close> is the one the specification
  describes (strip a literal \<open>https://\<close> or \<open>http://\<close>, then a literal \<open>www.\<close>) for
  every URL but the five in which a prefix has nothing after it: the source strips a
  prefix only from a string longer than the prefix, so \<open>https://\<close>, \<open>http://\<close> and \<open>www.\<close>
  are returned as they are, and \<open>https://www.\<close> and \<open>http://www.\<close> lose the scheme and
  keep \<open>www.\<close>. A URL with none of the three prefixes is returned unchanged, and the
  three examples of the specification hold.
\<close>

theorem hostname_of_strips:
  "(url \<notin> {''https://'', ''http://'', ''www.'', ''https://www.'', ''http://www.''}
      \<longrightarrow> hostname_of url = spec_domain url)
   \<and> (\<not> prefix ''https://'' url \<and> \<not> prefix ''http://'' url \<and> \<not> prefix ''www.'' url
      \<longrightarrow> hostname_of url = url)
   \<and> hostname_of ''https://'' = ''https://''
   \<and> hostname_of ''http://'' = ''http://''
   \<and> hostname_of ''www.'' = ''www.''
   \<and> hostname_of ''https://www.'' = ''www.''
   \<and> hostname_of ''http://www.'' = ''www.''
   \<and> hostname_of ''https://example.com'' = ''example.com''
   \<and> hostname_of ''http://www.example.com'' = ''example.com''
   \<and> hostname_of ''example.com'' = ''example.com''"
proof (intro conjI impI)
  assume out: "url \<notin> {''https://'', ''http://'', ''www.'', ''https://www.'', ''http://www.''}"
  then have a: "url \<noteq> ''https://''" "url \<noteq> ''http://''" by auto
  have b: "strip_scheme url \<noteq> ''www.''"
  proof
    assume e: "strip_scheme url = ''www.''"
    show False
    proof (cases "length url > 8 \<and> take 8 url = ''https://''")
      case True
      with e have "drop 8 url = ''www.''" by (simp add: strip_scheme_def)
      with True have "url = ''https://'' @ ''www.''" by (metis append_take_drop_id)
      with out show False by simp
    next
      case F1: False
      show False
      proof (cases "length url > 7 \<and> take 7 url = ''http://''")
        case True
        with e F1 have "drop 7 url = ''www.''" by (simp add: strip_scheme_def)
        with True have "url = ''http://'' @ ''www.''" by (metis append_take_drop_id)
        with out show False by simp
      next
        case False
        with e F1 have "url = ''www.''" by (simp add: strip_scheme_def)
        with out show False by simp
      qed
    qed
  qed
  show "hostname_of url = spec_domain url"
    unfolding hostname_of_def spec_domain_def Let_def
    using strip_scheme_spec[OF a] strip_www_spec[OF b] by simp
next
  assume "\<not> prefix ''https://'' url \<and> \<not> prefix ''http://'' url \<and> \<not> prefix ''www.'' url"
  then show "hostname_of url = url"
    unfolding hostname_of_def strip_scheme_def strip_www_def prefix_https prefix_http prefix_www
    by auto
qed (simp_all add: hostname_of_def strip_www_def strip_scheme_def)

theorem hostname_of_strips_witness:
  "''https://www.example.com'' \<notin> {''https://'', ''http://'', ''www.'', ''https://www.'', ''http://www.''}
   \<and> hostname_of ''https://www.example.com'' = spec_domain ''https://www.example.com''
   \<and> spec_domain ''https://www.example.com'' = ''example.com''
   \<and> \<not> prefix ''https://'' ''example.org'' \<and> \<not> prefix ''http://'' ''example.org''
   \<and> \<not> prefix ''www.'' ''example.org'' \<and> hostname_of ''example.org'' = ''example.org''"
  using hostname_of_strips [of "''https://www.example.com''"] hostname_of_strips [of "''example.org''"]
  by (simp add: spec_domain_def)

text \<open>
  Claim C8 as stated fails where a prefix is the whole string: \<open>https://\<close> is returned
  as it is, and \<open>http://www.\<close> keeps its \<open>www.\<close>, where stripping the literal prefixes
  gives the empty string.
\<close>

theorem bare_prefix_not_stripped:
  "hostname_of ''https://'' \<noteq> spec_domain ''https://''
   \<and> hostname_of ''https://'' = ''https://'' \<and> spec_domain ''https://'' = []
   \<and> hostname_of ''http://www.'' = ''www.'' \<and> spec_domain ''http://www.'' = []"
  by (simp add: hostname_of_def strip_www_def strip_scheme_def spec_domain_def)


section \<open>Results about fetchData\<close>

lemma list_all_snoc_last:
  "opened \<noteq> [] \<Longrightarrow> list_all P (butlast opened) \<Longrightarrow> P (last opened) \<Longrightarrow> list_all P opened"
  by (induction opened) (auto split: if_splits)

lemma map_butlast_snoc_last:
  "opened \<noteq> [] \<Longrightarrow> map f (butlast opened) @ [f (last opened)] = map f opened"
  by (metis append_butlast_last_id list.simps(8,9) map_append)

lemma follow_redirects_result:
  assumes run: "follow_redirects get w resp result opened = Some y"
    and pre: "opened \<noteq> []" "last opened = resp" "list_all is_redirect (butlast opened)"
      "result = (new_FetchResult url)\<lparr>Redirects := map Location (butlast opened)\<rparr>"
  shows "case y of (result', opened', out) \<Rightarrow>
     opened' \<noteq> [] \<and>
     (case out of
        Inr r \<Rightarrow> last opened' = r \<and> \<not> is_redirect r \<and> list_all is_redirect (butlast opened')
                 \<and> result' = (new_FetchResult url)\<lparr>Redirects := map Location (butlast opened')\<rparr>
      | Inl e \<Rightarrow> list_all is_redirect opened'
                 \<and> result' = (new_FetchResult url)\<lparr>Redirects := map Location opened'\<rparr>
                 \<and> (\<exists>w1 w2. get w1 (Location (last opened')) = (Inl e, w2)))"
proof -
  let ?post = "\<lambda>y. case y of (result', opened', out) \<Rightarrow>
     opened' \<noteq> [] \<and>
     (case out of
        Inr r \<Rightarrow> last opened' = r \<and> \<not> is_redirect r \<and> list_all is_redirect (butlast opened')
                 \<and> result' = (new_FetchResult url)\<lparr>Redirects := map Location (butlast opened')\<rparr>
      | Inl e \<Rightarrow> list_all is_redirect opened'
                 \<and> result' = (new_FetchResult url)\<lparr>Redirects := map Location opened'\<rparr>
                 \<and> (\<exists>w1 w2. get w1 (Location (last opened')) = (Inl e, w2)))"
  let ?P = "\<lambda>g (w :: 'a) resp result opened y.
     g = get \<longrightarrow> opened \<noteq> [] \<longrightarrow> last opened = resp \<longrightarrow> list_all is_redirect (butlast opened) \<longrightarrow>
     result = (new_FetchResult url)\<lparr>Redirects := map Location (butlast opened)\<rparr> \<longrightarrow> ?post y"
  have "?P get w resp result opened y"
  proof (rule follow_redirects.raw_induct [where P = ?P, OF _ run], goal_cases)
    case (1 f g w resp result opened y)
    show ?case
    proof (intro impI)
      assume g: "g = get" and ne: "opened \<noteq> []" and la: "last opened = resp"
        and reds: "list_all is_redirect (butlast opened)"
        and res: "result = (new_FetchResult url)\<lparr>Redirects := map Location (butlast opened)\<rparr>"
      let ?result2 = "result\<lparr>Redirects := Redirects result @ [Location resp]\<rparr>"
      show "?post y"
      proof (cases "is_redirect resp")
        case True
        have all: "list_all is_redirect opened"
          using list_all_snoc_last [OF ne reds] True la by simp
        have res2: "?result2 = (new_FetchResult url)\<lparr>Redirects := map Location opened\<rparr>"
          using map_butlast_snoc_last [OF ne, of Location] la by (simp add: res)
        obtain out w' where got: "get w (Location resp) = (out, w')"
          by (cases "get w (Location resp)") auto
        show ?thesis
        proof (cases out)
          case (Inl err)
          with 1(2) g True got have "y = (?result2, opened, Inl err)"
            by (simp add: is_redirect_def Location_def Let_def)
          with res2 all ne got Inl la show ?thesis by auto
        next
          case (Inr resp')
          with 1(2) g True got
          have "f get w' resp' ?result2 (opened @ [resp']) = Some y"
            by (simp add: is_redirect_def Location_def Let_def)
          from 1(1) [OF this] res2 all show ?thesis by simp
        qed
      next
        case False
        with 1(2) have "y = (result, opened, Inr resp)"
          by (simp add: is_redirect_def)
        with False ne la reds res show ?thesis by simp
      qed
    qed
  qed
  with pre show ?thesis by simp
qed


lemma fetchData_cases:
  assumes "fetchData get w url = Some fr"
  shows "(\<exists>e w'. get w url = (Inl e, w')
            \<and> fr = \<lparr>sent = (new_FetchResult url)\<lparr>fetch_Error := Some e\<rparr>,
                      opened_bodies = [], closed_bodies = []\<rparr>)
       \<or> (opened_bodies fr \<noteq> [] \<and> list_all is_redirect (opened_bodies fr)
            \<and> closed_bodies fr = []
            \<and> (\<exists>e w1 w2. get w1 (Location (last (opened_bodies fr))) = (Inl e, w2)
                  \<and> sent fr = (new_FetchResult url)
                       \<lparr>Redirects := map Location (opened_bodies fr), fetch_Error := Some e\<rparr>))
       \<or> (opened_bodies fr \<noteq> [] \<and> list_all is_redirect (butlast (opened_bodies fr))
            \<and> \<not> is_redirect (last (opened_bodies fr))
            \<and> closed_bodies fr = [last (opened_bodies fr)]
            \<and> (case ReadAll (Body (last (opened_bodies fr))) of
                  Inl e \<Rightarrow>
                    sent fr = (new_FetchResult url)
                      \<lparr>Redirects := map Location (butlast (opened_bodies fr)),
                       fetch_Error := Some e\<rparr>
                | Inr body \<Rightarrow>
                    sent fr = (new_FetchResult url)
                      \<lparr>Redirects := map Location (butlast (opened_bodies fr)),
                       StatusCode := resp_StatusCode (last (opened_bodies fr)),
                       BodyLength := int (length body),
                       BodySize := of_int (int (length body)) / 1024 / 1024\<rparr>))"
proof -
  obtain first w' where got: "get w url = (first, w')"
    by (cases "get w url") auto
  show ?thesis
  proof (cases first)
    case (Inl e)
    with assms got show ?thesis by (auto simp: fetchData_def)
  next
    case (Inr resp)
    with assms got obtain y where
      loop: "follow_redirects get w' resp (new_FetchResult url) [resp] = Some y"
      by (cases "follow_redirects get w' resp (new_FetchResult url) [resp]")
        (auto simp: fetchData_def)
    obtain result opened out where y: "y = (result, opened, out)"
      by (cases y) auto
    have post: "case y of (result', opened', out) \<Rightarrow>
     opened' \<noteq> [] \<and>
     (case out of
        Inr r \<Rightarrow> last opened' = r \<and> \<not> is_redirect r \<and> list_all is_redirect (butlast opened')
                 \<and> result' = (new_FetchResult url)\<lparr>Redirects := map Location (butlast opened')\<rparr>
      | Inl e \<Rightarrow> list_all is_redirect opened'
                 \<and> result' = (new_FetchResult url)\<lparr>Redirects := map Location opened'\<rparr>
                 \<and> (\<exists>w1 w2. get w1 (Location (last opened')) = (Inl e, w2)))"
      by (rule follow_redirects_result [OF loop]) (simp_all add: new_FetchResult_def)
    show ?thesis
    proof (cases out)
      case (Inl e)
      with assms got Inr loop y
      have fr: "fr = \<lparr>sent = result\<lparr>fetch_Error := Some e\<rparr>, opened_bodies = opened,
                       closed_bodies = []\<rparr>"
        by (simp add: fetchData_def)
      from post y Inl show ?thesis
        unfolding fr by auto
    next
      case out: (Inr r)
      show ?thesis
      proof (cases "ReadAll (Body r)")
        case (Inl e)
        with assms got Inr loop y out
        have fr: "fr = \<lparr>sent = result\<lparr>fetch_Error := Some e\<rparr>, opened_bodies = opened,
                       closed_bodies = [r]\<rparr>"
          by (simp add: fetchData_def)
        from post y out Inl show ?thesis
          unfolding fr by auto
      next
        case body: (Inr body)
        with assms got Inr loop y out
        have fr: "fr = \<lparr>sent = result\<lparr>StatusCode := resp_StatusCode r,
                                           BodyLength := int (length body),
                                           BodySize := of_int (int (length body)) / 1024 / 1024\<rparr>,
                          opened_bodies = opened, closed_bodies = [r]\<rparr>"
          by (simp add: fetchData_def Let_def)
        from post y out body show ?thesis
          unfolding fr by auto
      qed
    qed
  qed
qed


lemma list_all_last_redirect: "xs \<noteq> [] \<Longrightarrow> list_all is_redirect xs \<Longrightarrow> is_redirect (last xs)"
  by (induction xs) (auto split: if_splits)

lemma filter_redirects_all: "list_all is_redirect xs \<Longrightarrow> filter is_redirect xs = xs"
  by (induction xs) auto

lemma filter_redirects_butlast:
  "xs \<noteq> [] \<Longrightarrow> list_all is_redirect (butlast xs) \<Longrightarrow> \<not> is_redirect (last xs)
     \<Longrightarrow> filter is_redirect xs = butlast xs"
  by (induction xs) (auto split: if_splits)

section \<open>Results about the stand-in for http.Get\<close>

lemma client_do_hands_back:
  "client_do n serve s url = (Inr resp, s') \<Longrightarrow> \<not> follows resp"
  by (induction n arbitrary: s url) (auto split: prod.splits sum.splits if_splits)

lemma go_like_default_Get: "go_like (default_Get serve)"
proof -
  have "Location resp = []"
    if "default_Get serve w url = (Inr resp, w')" and "is_redirect resp" for w url resp w'
  proof -
    from that(1) have "client_do 10 serve w url = (Inr resp, w')"
      by (auto simp: default_Get_def split: if_splits)
    then have "\<not> follows resp" by (rule client_do_hands_back)
    with that(2) show ?thesis by (auto simp: follows_def is_redirect_def)
  qed
  moreover have "\<exists>err w'. default_Get serve w [] = (Inl err, w')" for w
    by (simp add: default_Get_def)
  ultimately show ?thesis unfolding go_like_def by blast
qed

lemma client_do_numeral:
  "client_do (numeral k) serve s url =
     (case serve s url of
        (Inl err, s') \<Rightarrow> (Inl err, s')
      | (Inr resp, s') \<Rightarrow>
          (if follows resp then client_do (pred_numeral k) serve s' (Location resp)
           else (Inr resp, s')))"
  by (simp add: numeral_eq_Suc)

lemma default_Get_empty: "default_Get serve s [] = (Inl ''unsupported protocol scheme'', s)"
  by (simp add: default_Get_def)

lemma default_Get_error:
  "url \<noteq> [] \<Longrightarrow> serve s url = (Inl err, s') \<Longrightarrow> default_Get serve s url = (Inl err, s')"
  by (simp add: default_Get_def client_do_numeral)

lemma default_Get_hands_back:
  "url \<noteq> [] \<Longrightarrow> serve s url = (Inr resp, s') \<Longrightarrow> \<not> follows resp
     \<Longrightarrow> default_Get serve s url = (Inr resp, s')"
  by (simp add: default_Get_def client_do_numeral)

lemma page_not_followed: "\<not> follows (page code body)"
  by (simp add: follows_def Location_def page_def Header_Get_def)

lemma moved_nowhere_not_followed: "\<not> follows moved_nowhere"
  by (simp add: follows_def Location_def moved_nowhere_def Header_Get_def)

lemma scripted_empty_url: "scripted s [] = (Inl ''unsupported protocol scheme'', s)"
  by (simp add: scripted_def default_Get_empty)

lemma scripted_refused: "url \<noteq> [] \<Longrightarrow> scripted [] url = (Inl ''connection refused'', [])"
  by (simp add: scripted_def default_Get_error script_def)

lemma scripted_error: "url \<noteq> [] \<Longrightarrow> scripted (Inl err # rs) url = (Inl err, rs)"
  by (simp add: scripted_def default_Get_error script_def)

lemma scripted_page:
  "url \<noteq> [] \<Longrightarrow> scripted (Inr (page code body) # rs) url = (Inr (page code body), rs)"
  by (simp add: scripted_def default_Get_hands_back [OF _ _ page_not_followed] script_def)

lemma scripted_moved_nowhere:
  "url \<noteq> [] \<Longrightarrow> scripted (Inr moved_nowhere # rs) url = (Inr moved_nowhere, rs)"
  by (simp add: scripted_def default_Get_hands_back [OF _ _ moved_nowhere_not_followed] script_def)

lemma go_like_scripted: "go_like scripted"
  unfolding scripted_def by (rule go_like_default_Get)


lemmas run_scripted =
  scripted_def default_Get_def script_def client_do_numeral follows_def Location_def
  Header_Get_def

section \<open>Results about the responses returned\<close>

lemma returned_loop:
  assumes "returned get w0 url rs out" and "get w0 url = (Inr resp, w)"
  shows "\<exists>opened'. follow_redirects get w resp result opened =
           Some (result\<lparr>Redirects := Redirects result @ map Location rs\<rparr>, opened', out)"
  using assms
proof (induction rs arbitrary: w0 url resp w result opened)
  case Nil
  then have "out = Inr resp" "\<not> is_redirect resp" by auto
  then show ?case
    by (subst follow_redirects.simps) (simp add: is_redirect_def)
next
  case (Cons r rs)
  from Cons.prems have r: "r = resp" and red: "is_redirect resp"
    and rest: "returned get w (Location resp) rs out"
    by auto
  let ?result = "result\<lparr>Redirects := Redirects result @ [Location resp]\<rparr>"
  obtain x w2 where got: "get w (Location resp) = (x, w2)"
    by (cases "get w (Location resp)") auto
  show ?case
  proof (cases x)
    case (Inl err)
    with rest got have "rs = []" "out = Inl err"
      by (cases rs; simp)+
    with red got Inl r show ?thesis
      by (subst follow_redirects.simps) (simp add: is_redirect_def Location_def)
  next
    case (Inr r2)
    from Cons.IH [OF rest, of r2 w2 ?result "opened @ [r2]"] got Inr
    obtain opened' where
      "follow_redirects get w2 r2 ?result (opened @ [r2]) =
         Some (?result\<lparr>Redirects := Redirects ?result @ map Location rs\<rparr>, opened', out)"
      by auto
    with red got Inr r show ?thesis
      by (subst follow_redirects.simps) (simp add: is_redirect_def Location_def)
  qed
qed

lemma returned_fetchData:
  assumes "returned get w url rs out"
  shows "\<exists>fr. fetchData get w url = Some fr \<and> Redirects (sent fr) = map Location rs
           \<and> (\<forall>err. out = Inl err \<longrightarrow>
                 fetch_Error (sent fr) = Some err \<and> StatusCode (sent fr) = 0
                 \<and> BodyLength (sent fr) = 0 \<and> BodySize (sent fr) = 0)"
proof -
  obtain x w1 where got: "get w url = (x, w1)"
    by (cases "get w url") auto
  show ?thesis
  proof (cases x)
    case (Inl err)
    with assms got have "rs = []" "out = Inl err"
      by (cases rs; simp)+
    with got Inl show ?thesis
      by (simp add: fetchData_def new_FetchResult_def)
  next
    case (Inr resp)
    from returned_loop [OF assms, of resp w1 "new_FetchResult url" "[resp]"] got Inr
    obtain opened' where loop: "follow_redirects get w1 resp (new_FetchResult url) [resp] =
        Some ((new_FetchResult url)\<lparr>Redirects := map Location rs\<rparr>, opened', out)"
      by (auto simp: new_FetchResult_def)
    show ?thesis
    proof (cases out)
      case (Inl err)
      with got Inr loop show ?thesis
        by (simp add: fetchData_def new_FetchResult_def)
    next
      case out: (Inr r)
      with got Inr loop show ?thesis
        by (cases "ReadAll (Body r)") (simp_all add: fetchData_def new_FetchResult_def Let_def)
    qed
  qed
qed

lemma follow_redirects_returned:
  assumes run: "follow_redirects get w resp result opened = Some y"
    and got: "get w0 url = (Inr resp, w)"
  shows "\<exists>rs. returned get w0 url rs (snd (snd y))
           \<and> Redirects (fst y) = Redirects result @ map Location rs"
proof -
  let ?P = "\<lambda>g (w :: 'a) resp result (opened :: Response list)
              (y :: FetchResult \<times> Response list \<times> (go_error + Response)).
     g = get \<longrightarrow> (\<forall>w0 url. get w0 url = (Inr resp, w) \<longrightarrow>
       (\<exists>rs. returned get w0 url rs (snd (snd y))
           \<and> Redirects (fst y) = Redirects result @ map Location rs))"
  have "?P get w resp result opened y"
  proof (rule follow_redirects.raw_induct [where P = ?P, OF _ run], goal_cases)
    case (1 f g w resp result opened y)
    show ?case
    proof (intro impI allI)
      fix w0 url
      assume g: "g = get" and got: "get w0 url = (Inr resp, w)"
      let ?result = "result\<lparr>Redirects := Redirects result @ [Location resp]\<rparr>"
      show "\<exists>rs. returned get w0 url rs (snd (snd y))
           \<and> Redirects (fst y) = Redirects result @ map Location rs"
      proof (cases "is_redirect resp")
        case False
        with 1(2) have "y = (result, opened, Inr resp)"
          by (simp add: is_redirect_def)
        with False got have "returned get w0 url [] (snd (snd y))
           \<and> Redirects (fst y) = Redirects result @ map Location []"
          by simp
        then show ?thesis by blast
      next
        case True
        obtain x w2 where next_got: "get w (Location resp) = (x, w2)"
          by (cases "get w (Location resp)") auto
        show ?thesis
        proof (cases x)
          case (Inl err)
          with 1(2) g True next_got have "y = (?result, opened, Inl err)"
            by (simp add: is_redirect_def Location_def Let_def)
          with True got next_got Inl have "returned get w0 url [resp] (snd (snd y))
             \<and> Redirects (fst y) = Redirects result @ map Location [resp]"
            by simp
          then show ?thesis by blast
        next
          case (Inr r2)
          with 1(2) g True next_got
          have "f get w2 r2 ?result (opened @ [r2]) = Some y"
            by (simp add: is_redirect_def Location_def Let_def)
          from 1(1) [OF this] next_got Inr
          obtain rs where rs: "returned get w (Location resp) rs (snd (snd y))"
            "Redirects (fst y) = Redirects ?result @ map Location rs"
            by auto
          with True got have "returned get w0 url (resp # rs) (snd (snd y))
             \<and> Redirects (fst y) = Redirects result @ map Location (resp # rs)"
            by simp
          then show ?thesis by blast
        qed
      qed
    qed
  qed
  with got show ?thesis by blast
qed

lemma fetchData_returned:
  assumes "fetchData get w url = Some fr"
  shows "\<exists>rs out. returned get w url rs out \<and> Redirects (sent fr) = map Location rs"
proof -
  obtain x w1 where got: "get w url = (x, w1)"
    by (cases "get w url") auto
  show ?thesis
  proof (cases x)
    case (Inl err)
    with assms got have "returned get w url [] (Inl err) \<and> Redirects (sent fr) = map Location []"
      by (auto simp: fetchData_def new_FetchResult_def)
    then show ?thesis by blast
  next
    case (Inr resp)
    with assms got obtain y where
      loop: "follow_redirects get w1 resp (new_FetchResult url) [resp] = Some y"
      by (cases "follow_redirects get w1 resp (new_FetchResult url) [resp]")
        (auto simp: fetchData_def)
    from follow_redirects_returned [OF loop] got Inr
    obtain rs where rs: "returned get w url rs (snd (snd y))"
      "Redirects (fst y) = map Location rs"
      by (auto simp: new_FetchResult_def)
    from assms got Inr loop have "Redirects (sent fr) = Redirects (fst y)"
      by (cases y) (auto simp: fetchData_def Let_def split: sum.splits)
    with rs show ?thesis by auto
  qed
qed

section \<open>Results about the outcome of fetchData\<close>

text \<open>
  Claim C7. An outcome with an error has zero measurements. For \<open>pingUrl\<close>:
  \<open>PacketsSent\<close>, \<open>PacketsRecv\<close>, \<open>PacketLoss\<close> and \<open>AvgRtt\<close> are 0. For \<open>fetchData\<close>:
  \<open>StatusCode\<close>, \<open>BodyLength\<close> and \<open>BodySize\<close> are 0, and \<open>Redirects\<close> is the list of the
  \<open>Location\<close> values of the 301 and 302 responses that \<open>http.Get\<close> returned, in order,
  the one whose GET failed included. The third and fourth parts say so of every result,
  in terms of what \<open>http.Get\<close> returned alone.
\<close>

theorem error_means_zero_fields:
  "(ping_Error (pingUrl lib url) \<noteq> None \<longrightarrow>
      PacketsSent (pingUrl lib url) = 0 \<and> PacketsRecv (pingUrl lib url) = 0
      \<and> PacketLoss (pingUrl lib url) = 0 \<and> AvgRtt (pingUrl lib url) = 0)
   \<and> (fetchData get w u = Some fr \<longrightarrow> fetch_Error (sent fr) \<noteq> None \<longrightarrow>
        StatusCode (sent fr) = 0 \<and> BodyLength (sent fr) = 0 \<and> BodySize (sent fr) = 0
        \<and> Redirects (sent fr) = map Location (filter is_redirect (opened_bodies fr)))
   \<and> (fetchData get w u = Some fr \<longrightarrow>
        (\<exists>rs out. returned get w u rs out \<and> Redirects (sent fr) = map Location rs))
   \<and> (returned get w u rs out \<longrightarrow>
        (\<exists>fr'. fetchData get w u = Some fr' \<and> Redirects (sent fr') = map Location rs
           \<and> (\<forall>err. out = Inl err \<longrightarrow>
                 fetch_Error (sent fr') = Some err \<and> StatusCode (sent fr') = 0
                 \<and> BodyLength (sent fr') = 0 \<and> BodySize (sent fr') = 0)))"
proof (intro conjI impI)
  assume "ping_Error (pingUrl lib url) \<noteq> None"
  then show "PacketsSent (pingUrl lib url) = 0" "PacketsRecv (pingUrl lib url) = 0"
    "PacketLoss (pingUrl lib url) = 0" "AvgRtt (pingUrl lib url) = 0"
    by (auto simp: pingUrl_def new_PingResult_def Let_def split: sum.splits)
next
  assume fd: "fetchData get w u = Some fr" and err: "fetch_Error (sent fr) \<noteq> None"
  from fetchData_cases [OF fd] err
  show "StatusCode (sent fr) = 0" "BodyLength (sent fr) = 0" "BodySize (sent fr) = 0"
    by (auto simp: new_FetchResult_def split: sum.splits)
  from fetchData_cases [OF fd] err
  show "Redirects (sent fr) = map Location (filter is_redirect (opened_bodies fr))"
    by (auto simp: new_FetchResult_def filter_redirects_all filter_redirects_butlast
        split: sum.splits)
next
  assume "fetchData get w u = Some fr"
  then show "\<exists>rs out. returned get w u rs out \<and> Redirects (sent fr) = map Location rs"
    by (rule fetchData_returned)
next
  assume "returned get w u rs out"
  then show "\<exists>fr'. fetchData get w u = Some fr' \<and> Redirects (sent fr') = map Location rs
           \<and> (\<forall>err. out = Inl err \<longrightarrow>
                 fetch_Error (sent fr') = Some err \<and> StatusCode (sent fr') = 0
                 \<and> BodyLength (sent fr') = 0 \<and> BodySize (sent fr') = 0)"
    by (rule returned_fetchData)
qed

lemma fetch_no_Location:
  "fetchData scripted [Inr moved_nowhere] ''http://a'' =
     Some \<lparr>sent = \<lparr>fetch_URL = ''http://a'', StatusCode = 0, BodyLength = 0, BodySize = 0,
                   fetch_Error = Some ''unsupported protocol scheme'', Redirects = [[]]\<rparr>,
           opened_bodies = [moved_nowhere], closed_bodies = []\<rparr>"
  by (simp add: fetchData_def follow_redirects.simps run_scripted moved_nowhere_def
      new_FetchResult_def)

lemma returned_no_Location:
  "returned scripted [Inr moved_nowhere] ''http://a'' [moved_nowhere]
     (Inl ''unsupported protocol scheme'')"
  by (simp add: run_scripted moved_nowhere_def is_redirect_def)

theorem error_means_zero_fields_witness:
  "ping_Error (pingUrl no_such_host ''https://nowhere.invalid'') \<noteq> None
   \<and> PacketsSent (pingUrl no_such_host ''https://nowhere.invalid'') = 0
   \<and> AvgRtt (pingUrl no_such_host ''https://nowhere.invalid'') = 0
   \<and> returned scripted [Inr moved_nowhere] ''http://a'' [moved_nowhere]
        (Inl ''unsupported protocol scheme'')
   \<and> fetchData scripted [Inr moved_nowhere] ''http://a'' =
       Some \<lparr>sent = \<lparr>fetch_URL = ''http://a'', StatusCode = 0, BodyLength = 0, BodySize = 0,
                     fetch_Error = Some ''unsupported protocol scheme'', Redirects = [[]]\<rparr>,
             opened_bodies = [moved_nowhere], closed_bodies = []\<rparr>
   \<and> map Location [moved_nowhere] = [[]]"
proof -
  let ?out = "\<lparr>sent = \<lparr>fetch_URL = ''http://a'', StatusCode = 0, BodyLength = 0, BodySize = 0,
                   fetch_Error = Some ''unsupported protocol scheme'', Redirects = [[]]\<rparr>,
           opened_bodies = [moved_nowhere], closed_bodies = []\<rparr>"
  note t = error_means_zero_fields [where lib = no_such_host
      and url = "''https://nowhere.invalid''" and get = scripted
      and w = "[Inr moved_nowhere]" and u = "''http://a''" and fr = ?out
      and rs = "[moved_nowhere]" and out = "Inl ''unsupported protocol scheme''"]
  have e: "ping_Error (pingUrl no_such_host ''https://nowhere.invalid'') \<noteq> None"
    by (simp add: pingUrl_def no_such_host_def new_PingResult_def)
  have f: "fetch_Error (sent ?out) \<noteq> None" by simp
  from t e have ping: "PacketsSent (pingUrl no_such_host ''https://nowhere.invalid'') = 0
      \<and> AvgRtt (pingUrl no_such_host ''https://nowhere.invalid'') = 0"
    by blast
  from t fetch_no_Location f
  have "Redirects (sent ?out) = map Location (filter is_redirect (opened_bodies ?out))"
    by blast
  then have locs: "map Location [moved_nowhere] = [[]]"
    by (simp add: is_redirect_def moved_nowhere_def)
  from t returned_no_Location
  have "\<exists>fr'. fetchData scripted [Inr moved_nowhere] ''http://a'' = Some fr'
           \<and> Redirects (sent fr') = map Location [moved_nowhere]"
    by blast
  with e ping locs returned_no_Location fetch_no_Location show ?thesis by simp
qed

text \<open>
  Claim C5 fails on the code. A server answers 302, then 301, then 200 with the body
  \<open>hello\<close>. \<open>http.Get\<close> follows the two redirects itself and returns the 200, the loop of
  \<open>fetchData\<close> is not entered, and \<open>Redirects\<close> is empty where the claim has the two
  \<open>Location\<close> values; \<open>StatusCode\<close>, \<open>Error\<close> and the sizes are as claimed.
\<close>

theorem followed_redirects_not_recorded:
  "fetchData scripted
     [Inr (redirect_to 302 ''http://b''), Inr (redirect_to 301 ''http://c''),
      Inr (page 200 ''hello'')] ''http://a'' =
   Some \<lparr>sent = \<lparr>fetch_URL = ''http://a'', StatusCode = 200, BodyLength = 5,
                 BodySize = 5 / 1048576, fetch_Error = None, Redirects = []\<rparr>,
         opened_bodies = [page 200 ''hello''], closed_bodies = [page 200 ''hello'']\<rparr>"
  by (simp add: fetchData_def follow_redirects.simps run_scripted redirect_to_def page_def
      new_FetchResult_def ReadAll_def)

text \<open>
  Whatever \<open>http.Get\<close> returns, a result without error has the status of the last
  response received, which is no 301 or 302.
\<close>

lemma status_of_last_response:
  assumes "fetchData get w url = Some fr" and "fetch_Error (sent fr) = None"
  shows "StatusCode (sent fr) \<noteq> 301 \<and> StatusCode (sent fr) \<noteq> 302
         \<and> StatusCode (sent fr) = resp_StatusCode (last (opened_bodies fr))"
proof -
  from fetchData_cases [OF assms(1)] assms(2)
  have "\<not> is_redirect (last (opened_bodies fr))
        \<and> StatusCode (sent fr) = resp_StatusCode (last (opened_bodies fr))"
    by (auto split: sum.splits)
  then show ?thesis by (auto simp: is_redirect_def)
qed





text \<open>
  Claim C9. A last response that is not a 301 or 302, whatever its status (404 and 500
  too), is no failure: \<open>fetchData\<close> returns with \<open>Error\<close> nil, \<open>StatusCode\<close> the status of
  that response, and \<open>BodyLength\<close> and \<open>BodySize\<close> from its body. The first part is the
  case of no redirect, the second the case of any chain. An error in the result is
  always one that a GET returned or that reading the last body returned.
\<close>

theorem http_error_status_is_not_a_failure:
  "(get w url = (Inr r, w') \<and> resp_StatusCode r \<noteq> 301 \<and> resp_StatusCode r \<noteq> 302
      \<and> ReadAll (Body r) = Inr body \<longrightarrow>
    fetchData get w url =
      Some \<lparr>sent = \<lparr>fetch_URL = url, StatusCode = resp_StatusCode r,
                    BodyLength = int (length body),
                    BodySize = of_int (int (length body)) / 1024 / 1024,
                    fetch_Error = None, Redirects = []\<rparr>,
            opened_bodies = [r], closed_bodies = [r]\<rparr>)
   \<and> (fetchData get w url = Some fr \<and> opened_bodies fr \<noteq> []
        \<and> \<not> is_redirect (last (opened_bodies fr))
        \<and> ReadAll (Body (last (opened_bodies fr))) = Inr body \<longrightarrow>
      fetch_Error (sent fr) = None
      \<and> StatusCode (sent fr) = resp_StatusCode (last (opened_bodies fr))
      \<and> BodyLength (sent fr) = int (length body)
      \<and> BodySize (sent fr) = of_int (int (length body)) / 1024 / 1024)
   \<and> (fetchData get w url = Some fr \<and> fetch_Error (sent fr) = Some e \<longrightarrow>
        (\<exists>w1 u w2. get w1 u = (Inl e, w2))
        \<or> (opened_bodies fr \<noteq> [] \<and> ReadAll (Body (last (opened_bodies fr))) = Inl e))"
proof (intro conjI impI)
  assume "get w url = (Inr r, w') \<and> resp_StatusCode r \<noteq> 301 \<and> resp_StatusCode r \<noteq> 302
      \<and> ReadAll (Body r) = Inr body"
  then show "fetchData get w url =
      Some \<lparr>sent = \<lparr>fetch_URL = url, StatusCode = resp_StatusCode r,
                    BodyLength = int (length body),
                    BodySize = of_int (int (length body)) / 1024 / 1024,
                    fetch_Error = None, Redirects = []\<rparr>,
            opened_bodies = [r], closed_bodies = [r]\<rparr>"
    by (simp add: fetchData_def follow_redirects.simps [of get] new_FetchResult_def Let_def)
next
  assume a: "fetchData get w url = Some fr \<and> opened_bodies fr \<noteq> []
        \<and> \<not> is_redirect (last (opened_bodies fr))
        \<and> ReadAll (Body (last (opened_bodies fr))) = Inr body"
  then have fd: "fetchData get w url = Some fr" by simp
  from fetchData_cases [OF fd] a
  have "sent fr = (new_FetchResult url)
                      \<lparr>Redirects := map Location (butlast (opened_bodies fr)),
                       StatusCode := resp_StatusCode (last (opened_bodies fr)),
                       BodyLength := int (length body),
                       BodySize := of_int (int (length body)) / 1024 / 1024\<rparr>"
    by (elim disjE) (auto dest: list_all_last_redirect)
  then show "fetch_Error (sent fr) = None"
    "StatusCode (sent fr) = resp_StatusCode (last (opened_bodies fr))"
    "BodyLength (sent fr) = int (length body)"
    "BodySize (sent fr) = of_int (int (length body)) / 1024 / 1024"
    by (simp_all add: new_FetchResult_def)
next
  assume a: "fetchData get w url = Some fr \<and> fetch_Error (sent fr) = Some e"
  then have fd: "fetchData get w url = Some fr" by simp
  from fetchData_cases [OF fd] a
  show "(\<exists>w1 u w2. get w1 u = (Inl e, w2))
        \<or> (opened_bodies fr \<noteq> [] \<and> ReadAll (Body (last (opened_bodies fr))) = Inl e)"
    by (elim disjE) (auto simp: new_FetchResult_def split: sum.splits, blast+)
qed


theorem http_error_status_is_not_a_failure_witness:
  "fetchData scripted [Inr (page 404 ''not found'')] ''http://a/missing'' =
     Some \<lparr>sent = \<lparr>fetch_URL = ''http://a/missing'', StatusCode = 404, BodyLength = 9,
                   BodySize = 9 / 1048576, fetch_Error = None, Redirects = []\<rparr>,
           opened_bodies = [page 404 ''not found''], closed_bodies = [page 404 ''not found'']\<rparr>
   \<and> fetchData scripted [] ''http://a/missing'' =
       Some \<lparr>sent = (new_FetchResult ''http://a/missing'')
                       \<lparr>fetch_Error := Some ''connection refused''\<rparr>,
             opened_bodies = [], closed_bodies = []\<rparr>
   \<and> (\<exists>w1 u w2. scripted w1 u = (Inl ''connection refused'', w2))"
proof -
  let ?w = "[Inr (page 404 ''not found'')]"
  let ?fr = "\<lparr>sent = \<lparr>fetch_URL = ''http://a/missing'', StatusCode = 404, BodyLength = 9,
                   BodySize = 9 / 1048576, fetch_Error = None, Redirects = []\<rparr>,
           opened_bodies = [page 404 ''not found''], closed_bodies = [page 404 ''not found'']\<rparr>"
  let ?refused = "\<lparr>sent = (new_FetchResult ''http://a/missing'')
                       \<lparr>fetch_Error := Some ''connection refused''\<rparr>,
             opened_bodies = [], closed_bodies = []\<rparr>"
  have h: "scripted ?w ''http://a/missing'' = (Inr (page 404 ''not found''), [])
      \<and> resp_StatusCode (page 404 ''not found'') \<noteq> 301
      \<and> resp_StatusCode (page 404 ''not found'') \<noteq> 302
      \<and> ReadAll (Body (page 404 ''not found'')) = Inr ''not found''"
    by (simp add: run_scripted page_def ReadAll_def)
  note t = http_error_status_is_not_a_failure [where get = scripted and w = ?w
      and url = "''http://a/missing''" and r = "page 404 ''not found''" and w' = "[]"
      and body = "''not found''" and fr = ?fr]
  from t h have run: "fetchData scripted ?w ''http://a/missing'' = Some ?fr"
    by (simp add: page_def)
  have "\<not> is_redirect (last (opened_bodies ?fr))"
    "ReadAll (Body (last (opened_bodies ?fr))) = Inr ''not found''"
    by (simp_all add: is_redirect_def page_def ReadAll_def)
  with t run have ok: "fetch_Error (sent ?fr) = None \<and> StatusCode (sent ?fr) = 404"
    by (simp add: page_def)
  have run0: "fetchData scripted [] ''http://a/missing'' = Some ?refused"
    by (simp add: fetchData_def run_scripted)
  have "fetch_Error (sent ?refused) = Some ''connection refused''" by simp
  with run0 http_error_status_is_not_a_failure [where get = scripted and w = "[]"
      and url = "''http://a/missing''" and fr = ?refused and e = "''connection refused''"]
  have "\<exists>w1 u w2. scripted w1 u = (Inl ''connection refused'', w2)"
    by simp
  with run run0 show ?thesis by simp
qed

text \<open>
  Claim C10. A 301 or 302 without a \<open>Location\<close> header makes the loop append the empty
  string to \<open>Redirects\<close> and GET the empty string; when that GET fails, the result carries
  its error and the empty string stays in \<open>Redirects\<close>. The first part is the loop at any
  hop, the second \<open>fetchData\<close> when the first response is such a redirect, the third any
  call whose last response received is such a redirect.
\<close>

theorem missing_Location_records_empty_string:
  "(is_redirect resp \<and> Header resp ''Location'' = None \<and> get w [] = (Inl e, w') \<longrightarrow>
      follow_redirects get w resp result opened =
        Some (result\<lparr>Redirects := Redirects result @ [[]]\<rparr>, opened, Inl e))
   \<and> (get w0 url = (Inr resp, w) \<and> is_redirect resp \<and> Header resp ''Location'' = None
        \<and> get w [] = (Inl e, w') \<longrightarrow>
      fetchData get w0 url =
        Some \<lparr>sent = \<lparr>fetch_URL = url, StatusCode = 0, BodyLength = 0, BodySize = 0,
                      fetch_Error = Some e, Redirects = [[]]\<rparr>,
              opened_bodies = [resp], closed_bodies = []\<rparr>)
   \<and> (fetchData get w0 url = Some fr \<and> opened_bodies fr \<noteq> []
        \<and> is_redirect (last (opened_bodies fr))
        \<and> Header (last (opened_bodies fr)) ''Location'' = None \<longrightarrow>
      fetch_Error (sent fr) \<noteq> None \<and> Redirects (sent fr) \<noteq> []
      \<and> last (Redirects (sent fr)) = [])"
proof (intro conjI impI)
  assume "is_redirect resp \<and> Header resp ''Location'' = None \<and> get w [] = (Inl e, w')"
  then show "follow_redirects get w resp result opened =
        Some (result\<lparr>Redirects := Redirects result @ [[]]\<rparr>, opened, Inl e)"
    by (subst follow_redirects.simps) (simp add: is_redirect_def Header_Get_def)
next
  assume "get w0 url = (Inr resp, w) \<and> is_redirect resp \<and> Header resp ''Location'' = None
        \<and> get w [] = (Inl e, w')"
  then show "fetchData get w0 url =
        Some \<lparr>sent = \<lparr>fetch_URL = url, StatusCode = 0, BodyLength = 0, BodySize = 0,
                      fetch_Error = Some e, Redirects = [[]]\<rparr>,
              opened_bodies = [resp], closed_bodies = []\<rparr>"
    by (simp add: fetchData_def follow_redirects.simps [of get] is_redirect_def Header_Get_def
        new_FetchResult_def)
next
  assume a: "fetchData get w0 url = Some fr \<and> opened_bodies fr \<noteq> []
        \<and> is_redirect (last (opened_bodies fr))
        \<and> Header (last (opened_bodies fr)) ''Location'' = None"
  then have fd: "fetchData get w0 url = Some fr" by simp
  from a have loc: "Location (last (opened_bodies fr)) = []"
    by (simp add: Location_def Header_Get_def)
  from fetchData_cases [OF fd] a
  have "\<exists>e. sent fr = (new_FetchResult url)
                       \<lparr>Redirects := map Location (opened_bodies fr), fetch_Error := Some e\<rparr>"
    by auto
  then obtain e where s: "sent fr = (new_FetchResult url)
                       \<lparr>Redirects := map Location (opened_bodies fr), fetch_Error := Some e\<rparr>"
    by blast
  from a have ne: "opened_bodies fr \<noteq> []" by simp
  show "fetch_Error (sent fr) \<noteq> None" "Redirects (sent fr) \<noteq> []"
    "last (Redirects (sent fr)) = []"
    using ne loc by (simp_all add: s last_map)
qed

theorem missing_Location_records_empty_string_witness:
  "is_redirect moved_nowhere \<and> Header moved_nowhere ''Location'' = None
   \<and> scripted [] [] = (Inl ''unsupported protocol scheme'', [])
   \<and> fetchData scripted [Inr moved_nowhere] ''http://a'' =
        Some \<lparr>sent = \<lparr>fetch_URL = ''http://a'', StatusCode = 0, BodyLength = 0, BodySize = 0,
                      fetch_Error = Some ''unsupported protocol scheme'', Redirects = [[]]\<rparr>,
              opened_bodies = [moved_nowhere], closed_bodies = []\<rparr>"
proof -
  have h: "is_redirect moved_nowhere" "Header moved_nowhere ''Location'' = None"
    "scripted [] [] = (Inl ''unsupported protocol scheme'', [])"
    "scripted [Inr moved_nowhere] ''http://a'' = (Inr moved_nowhere, [])"
    by (simp_all add: is_redirect_def moved_nowhere_def run_scripted)
  with missing_Location_records_empty_string [where get = scripted and ?w0.0 = "[Inr moved_nowhere]"
      and url = "''http://a''" and resp = moved_nowhere and w = "[]"
      and e = "''unsupported protocol scheme''" and w' = "[]"]
  show ?thesis by simp
qed

text \<open>
  Claim C3 fails on the code. \<open>http.Get\<close> returns a 301 without a \<open>Location\<close>, its body
  open. The loop asks for the empty URL, that GET fails, and \<open>fetchData\<close> returns at
  line 443, before the \<open>defer\<close> of line 447: the body of the 301 is never closed.
\<close>

theorem redirect_body_left_open:
  "scripted [Inr moved_nowhere] ''http://a'' = (Inr moved_nowhere, [])
   \<and> fetchData scripted [Inr moved_nowhere] ''http://a'' =
     Some \<lparr>sent = \<lparr>fetch_URL = ''http://a'', StatusCode = 0, BodyLength = 0, BodySize = 0,
                   fetch_Error = Some ''unsupported protocol scheme'', Redirects = [[]]\<rparr>,
           opened_bodies = [moved_nowhere], closed_bodies = []\<rparr>"
  by (simp add: fetchData_def follow_redirects.simps run_scripted moved_nowhere_def
      new_FetchResult_def)

section \<open>Results about the phases\<close>

lemma mset_remove_nth:
  assumes "k < length xs"
  shows "add_mset (xs ! k) (mset (take k xs @ drop (Suc k) xs)) = mset xs"
proof -
  have "xs = take k xs @ xs ! k # drop (Suc k) xs"
    using assms by (rule id_take_nth_drop)
  then have "mset xs = mset (take k xs @ xs ! k # drop (Suc k) xs)" by simp
  then show ?thesis by simp
qed

lemma step_inv:
  assumes "phase_inv us s" and "step n e s = Some s'"
  shows "phase_inv us s'"
proof (cases e)
  case (Send k)
  with assms(2) obtain r where k: "k < length (units s)" and r: "units s ! k = Some r"
    and s': "s' = s\<lparr>units := take k (units s) @ drop (Suc k) (units s),
                     channel := channel s @ [r]\<rparr>"
    by (auto split: if_splits option.splits)
  from mset_remove_nth [OF k] r
  have "add_mset (Some r) (mset (take k (units s) @ drop (Suc k) (units s))) = mset (units s)"
    by simp
  then have "mset (units s') + mset (map Some (channel s')) + mset (map Some (allResults s'))
      = mset (units s) + mset (map Some (channel s)) + mset (map Some (allResults s))"
    unfolding s' by (simp del: mset_append add: mset_append [of "map Some (channel s)"])
  moreover have "length (allResults s') = loop_i s' \<longleftrightarrow> length (allResults s) = loop_i s"
    by (simp add: s')
  ultimately show ?thesis
    using assms(1) unfolding phase_inv_def by simp
next
  case Receive
  with assms(2) obtain r rest where c: "channel s = r # rest"
    and s': "s' = s\<lparr>channel := rest, allResults := allResults s @ [r],
                     loop_i := Suc (loop_i s)\<rparr>"
    by (auto split: if_splits list.splits)
  with assms(1) show ?thesis
    unfolding phase_inv_def s' by simp
qed

lemma run_inv:
  "phase_inv us s \<Longrightarrow> run n es s = Some s' \<Longrightarrow> phase_inv us s'"
proof (induction es arbitrary: s)
  case Nil
  then show ?case by simp
next
  case (Cons e es)
  then show ?case
    by (auto split: option.splits dest: step_inv)
qed

lemma start_inv: "phase_inv us (start us)"
  by (simp add: phase_inv_def start_def)

lemma phase_inv_sizes:
  assumes "phase_inv us s"
  shows "length (units s) + length (channel s) + loop_i s = length us"
proof -
  from assms have eq: "mset (units s) + mset (map Some (channel s))
      + mset (map Some (allResults s)) = mset us"
    and len: "length (allResults s) = loop_i s"
    by (simp_all add: phase_inv_def)
  have "size (mset (units s) + mset (map Some (channel s))
      + mset (map Some (allResults s))) = size (mset us)"
    by (simp only: eq)
  with len show ?thesis by simp
qed

lemma phase_inv_done:
  assumes inv: "phase_inv us s" and fin: "loop_i s = length us"
  shows "length (allResults s) = length us \<and> mset (map Some (allResults s)) = mset us
         \<and> units s = [] \<and> channel s = []"
proof -
  from phase_inv_sizes [OF inv] fin have "units s = []" "channel s = []" by simp_all
  with inv fin show ?thesis by (simp add: phase_inv_def)
qed

lemma phase_progress:
  assumes inv: "phase_inv us s" and ret: "None \<notin> set us" and i: "loop_i s < length us"
  shows "\<exists>e s'. step (length us) e s = Some s'"
proof (cases "channel s")
  case (Cons r rest)
  with i have "step (length us) Receive s \<noteq> None" by simp
  then show ?thesis by blast
next
  case Nil
  with phase_inv_sizes [OF inv] i have ne: "units s \<noteq> []" by auto
  then have "units s ! 0 \<in> set (units s)" by simp
  moreover from inv have "set (units s) \<subseteq> set us"
    by (metis phase_inv_def mset_subset_eq_add_left set_mset_mono set_mset_mset
        union_assoc)
  ultimately have "units s ! 0 \<in> set us" by blast
  with ret obtain r where "units s ! 0 = Some r"
    by (cases "units s ! 0") auto
  moreover from i have "us \<noteq> []" by auto
  ultimately have "step (length us) (Send 0) s \<noteq> None" using ne Nil by simp
  then show ?thesis by blast
qed

lemma run_length:
  "run n es s = Some s' \<Longrightarrow>
     length es + length (units s') + loop_i s = length (units s) + loop_i s'"
proof (induction es arbitrary: s)
  case Nil
  then show ?case by simp
next
  case (Cons e es)
  from Cons.prems obtain s1 where s1: "step n e s = Some s1" and r: "run n es s1 = Some s'"
    by (auto split: option.splits)
  from s1 have "Suc (length (units s1) + loop_i s) = length (units s) + loop_i s1"
    by (cases e) (auto split: if_splits option.splits list.splits)
  with Cons.IH [OF r] show ?case by simp
qed


lemma mset_map_Some_eq:
  assumes "mset (map Some xs) = mset (map Some ys)"
  shows "mset xs = mset ys"
proof -
  from assms have "image_mset the (mset (map Some xs)) = image_mset the (mset (map Some ys))"
    by simp
  then show ?thesis
    by (simp add: multiset.map_comp comp_def)
qed

lemma phase_bounds:
  assumes "run (length us) es (start us) = Some s"
  shows "length es \<le> 2 * length us \<and> loop_i s \<le> length us"
proof -
  from run_inv [OF start_inv assms] have inv: "phase_inv us s" .
  from phase_inv_sizes [OF inv] have i: "loop_i s \<le> length us" by simp
  from run_length [OF assms] have "length es \<le> length us + loop_i s"
    by (simp add: start_def)
  with i show ?thesis by simp
qed

text \<open>
  Claim C1. Whatever the order in which the goroutines send, when the receiving loop of a
  phase is over (\<open>i = len(urls)\<close>) the slice holds exactly \<open>len(urls)\<close> results, one per
  website: those of \<open>pingUrl\<close> in the ping phase, those of \<open>fetchData\<close> in the fetch
  phase. No condition is put on the errors of the results. Until the loop is over some
  event can happen, in the ping phase always and in the fetch phase when every call of
  \<open>fetchData\<close> returns, and no run has more than \<open>2 * len(urls)\<close> events: the loop ends.
\<close>

theorem one_outcome_per_host:
  "(run (length urls) es (start (ping_units lib urls)) = Some s \<and> loop_i s = length urls
      \<longrightarrow> length (allResults s) = length urls
        \<and> mset (allResults s) = mset (map (\<lambda>url. pingUrl lib (URL url)) urls))
   \<and> (run (length urls) es (start (ping_units lib urls)) = Some s \<and> loop_i s < length urls
      \<longrightarrow> (\<exists>e s1. step (length urls) e s = Some s1))
   \<and> (run (length urls) es (start (ping_units lib urls)) = Some s
      \<longrightarrow> length es \<le> 2 * length urls \<and> loop_i s \<le> length urls)
   \<and> (length ws = length urls
        \<and> run (length urls) es' (start (fetch_units get ws urls)) = Some s'
        \<and> loop_i s' = length urls
      \<longrightarrow> length (allResults s') = length urls
        \<and> mset (map Some (allResults s')) = mset (fetch_units get ws urls))
   \<and> (length ws = length urls \<and> None \<notin> set (fetch_units get ws urls)
        \<and> run (length urls) es' (start (fetch_units get ws urls)) = Some s'
        \<and> loop_i s' < length urls
      \<longrightarrow> (\<exists>e s1. step (length urls) e s' = Some s1))
   \<and> (length ws = length urls
        \<and> run (length urls) es' (start (fetch_units get ws urls)) = Some s'
      \<longrightarrow> length es' \<le> 2 * length urls \<and> loop_i s' \<le> length urls)"
proof -
  have lp: "length (ping_units lib urls) = length urls"
    by (simp add: ping_units_def)
  have some: "None \<notin> set (ping_units lib urls)"
    by (auto simp: ping_units_def)
  have units: "ping_units lib urls = map Some (map (\<lambda>url. pingUrl lib (URL url)) urls)"
    by (simp add: ping_units_def)
  have lf: "length (fetch_units get ws urls) = length urls" if "length ws = length urls"
    using that by (simp add: fetch_units_def)
  have p1: "length (allResults s) = length urls
        \<and> mset (allResults s) = mset (map (\<lambda>url. pingUrl lib (URL url)) urls)"
    if r: "run (length urls) es (start (ping_units lib urls)) = Some s"
      and i: "loop_i s = length urls"
  proof -
    from run_inv [OF start_inv r] have "phase_inv (ping_units lib urls) s" .
    from phase_inv_done [OF this] i lp
    have len: "length (allResults s) = length urls"
      and "mset (map Some (allResults s)) = mset (ping_units lib urls)"
      by simp_all
    then have "mset (map Some (allResults s))
        = mset (map Some (map (\<lambda>url. pingUrl lib (URL url)) urls))"
      by (simp only: units)
    then have "mset (allResults s) = mset (map (\<lambda>url. pingUrl lib (URL url)) urls)"
      by (rule mset_map_Some_eq)
    with len show ?thesis by simp
  qed
  have p2: "\<exists>e s1. step (length urls) e s = Some s1"
    if r: "run (length urls) es (start (ping_units lib urls)) = Some s"
      and i: "loop_i s < length urls"
  proof -
    from run_inv [OF start_inv r] have "phase_inv (ping_units lib urls) s" .
    from phase_progress [OF this some] i lp show ?thesis by simp
  qed
  have p3: "length es \<le> 2 * length urls \<and> loop_i s \<le> length urls"
    if r: "run (length urls) es (start (ping_units lib urls)) = Some s"
    using phase_bounds [of "ping_units lib urls" es s] r lp by simp
  have f1: "length (allResults s') = length urls
        \<and> mset (map Some (allResults s')) = mset (fetch_units get ws urls)"
    if l: "length ws = length urls"
      and r: "run (length urls) es' (start (fetch_units get ws urls)) = Some s'"
      and i: "loop_i s' = length urls"
  proof -
    from run_inv [OF start_inv r] have "phase_inv (fetch_units get ws urls) s'" .
    from phase_inv_done [OF this] i lf [OF l] show ?thesis by simp
  qed
  have f2: "\<exists>e s1. step (length urls) e s' = Some s1"
    if l: "length ws = length urls" and ret: "None \<notin> set (fetch_units get ws urls)"
      and r: "run (length urls) es' (start (fetch_units get ws urls)) = Some s'"
      and i: "loop_i s' < length urls"
  proof -
    from run_inv [OF start_inv r] have "phase_inv (fetch_units get ws urls) s'" .
    from phase_progress [OF this ret] i lf [OF l] show ?thesis by simp
  qed
  have f3: "length es' \<le> 2 * length urls \<and> loop_i s' \<le> length urls"
    if l: "length ws = length urls"
      and r: "run (length urls) es' (start (fetch_units get ws urls)) = Some s'"
    using phase_bounds [of "fetch_units get ws urls" es' s'] r lf [OF l] by simp
  from p1 p2 p3 f1 f2 f3 show ?thesis by blast
qed

lemma ping_both_fail:
  "run 2 [Send 1, Send 0, Receive, Receive] (start (ping_units no_such_host two_sites)) =
     Some \<lparr>units = [], channel = [],
           allResults = [pingUrl no_such_host ''http://b.example'',
                         pingUrl no_such_host ''https://www.a.example''],
           loop_i = 2\<rparr>"
  by (simp add: start_def ping_units_def two_sites_def)

lemma fetch_one_fails:
  "run 2 [Send 0, Receive, Send 0, Receive]
       (start (fetch_units scripted [[Inr (page 200 ''ok'')], []] two_sites)) =
     Some \<lparr>units = [], channel = [],
           allResults = [\<lparr>fetch_URL = ''https://www.a.example'', StatusCode = 200,
                           BodyLength = 2, BodySize = 2 / 1048576, fetch_Error = None,
                           Redirects = []\<rparr>,
                         \<lparr>fetch_URL = ''http://b.example'', StatusCode = 0,
                           BodyLength = 0, BodySize = 0,
                           fetch_Error = Some ''connection refused'', Redirects = []\<rparr>],
           loop_i = 2\<rparr>"
  by (simp add: start_def fetch_units_def two_sites_def fetchData_def follow_redirects.simps
      run_scripted page_def new_FetchResult_def ReadAll_def)


theorem one_outcome_per_host_witness:
  "run (length two_sites) [Send 1, Send 0, Receive, Receive]
       (start (ping_units no_such_host two_sites)) =
     Some \<lparr>units = [], channel = [],
           allResults = [pingUrl no_such_host ''http://b.example'',
                         pingUrl no_such_host ''https://www.a.example''],
           loop_i = 2\<rparr>
   \<and> length [pingUrl no_such_host ''http://b.example'',
              pingUrl no_such_host ''https://www.a.example''] = length two_sites
   \<and> ping_Error (pingUrl no_such_host ''http://b.example'') \<noteq> None
   \<and> ping_Error (pingUrl no_such_host ''https://www.a.example'') \<noteq> None
   \<and> (\<exists>e s1. step (length two_sites) e (start (ping_units no_such_host two_sites)) = Some s1)
   \<and> length [[Inr (page 200 ''ok'')], []] = length two_sites
   \<and> run (length two_sites) [Send 0, Receive, Send 0, Receive]
       (start (fetch_units scripted [[Inr (page 200 ''ok'')], []] two_sites)) =
     Some \<lparr>units = [], channel = [],
           allResults = [\<lparr>fetch_URL = ''https://www.a.example'', StatusCode = 200,
                           BodyLength = 2, BodySize = 2 / 1048576, fetch_Error = None,
                           Redirects = []\<rparr>,
                         \<lparr>fetch_URL = ''http://b.example'', StatusCode = 0,
                           BodyLength = 0, BodySize = 0,
                           fetch_Error = Some ''connection refused'', Redirects = []\<rparr>],
           loop_i = 2\<rparr>
   \<and> None \<notin> set (fetch_units scripted [[Inr (page 200 ''ok'')], []] two_sites)
   \<and> (\<exists>e s1. step (length two_sites) e
         (start (fetch_units scripted [[Inr (page 200 ''ok'')], []] two_sites)) = Some s1)"
proof -
  let ?P = "\<lparr>units = [], channel = [],
           allResults = [pingUrl no_such_host ''http://b.example'',
                         pingUrl no_such_host ''https://www.a.example''],
           loop_i = 2\<rparr>"
  let ?F = "\<lparr>units = [], channel = [],
           allResults = [\<lparr>fetch_URL = ''https://www.a.example'', StatusCode = 200,
                           BodyLength = 2, BodySize = 2 / 1048576, fetch_Error = None,
                           Redirects = []\<rparr>,
                         \<lparr>fetch_URL = ''http://b.example'', StatusCode = 0,
                           BodyLength = 0, BodySize = 0,
                           fetch_Error = Some ''connection refused'', Redirects = []\<rparr>],
           loop_i = 2\<rparr>"
  let ?nets = "[[Inr (page 200 ''ok'')], []]"
  have l: "length two_sites = 2" by (simp add: two_sites_def)
  have p: "run (length two_sites) [Send 1, Send 0, Receive, Receive]
       (start (ping_units no_such_host two_sites)) = Some ?P"
    unfolding l by (rule ping_both_fail)
  have f: "run (length two_sites) [Send 0, Receive, Send 0, Receive]
       (start (fetch_units scripted ?nets two_sites)) = Some ?F"
    unfolding l by (rule fetch_one_fails)
  have lw: "length ?nets = length two_sites" by (simp add: l)
  have ret: "None \<notin> set (fetch_units scripted ?nets two_sites)"
    by (simp add: fetch_units_def two_sites_def fetchData_def follow_redirects.simps
      run_scripted page_def ReadAll_def Let_def)
  have fin: "loop_i ?P = length two_sites" "loop_i ?F = length two_sites"
    by (simp_all add: l)
  have errs: "ping_Error (pingUrl no_such_host ''http://b.example'') \<noteq> None"
    "ping_Error (pingUrl no_such_host ''https://www.a.example'') \<noteq> None"
    by (simp_all add: pingUrl_def no_such_host_def new_PingResult_def)
  from one_outcome_per_host [where urls = two_sites and lib = no_such_host
      and es = "[Send 1, Send 0, Receive, Receive]" and s = ?P and get = scripted
      and ws = ?nets and es' = "[Send 0, Receive, Send 0, Receive]" and s' = ?F] p f lw fin
  have counted: "length (allResults ?P) = length two_sites
      \<and> length (allResults ?F) = length two_sites"
    by blast
  have idle: "run (length two_sites) [] (start (ping_units no_such_host two_sites))
        = Some (start (ping_units no_such_host two_sites))"
    "run (length two_sites) [] (start (fetch_units scripted ?nets two_sites))
        = Some (start (fetch_units scripted ?nets two_sites))"
    "loop_i (start (ping_units no_such_host two_sites)) < length two_sites"
    "loop_i (start (fetch_units scripted ?nets two_sites)) < length two_sites"
    by (simp_all add: start_def l)
  from one_outcome_per_host [where urls = two_sites and lib = no_such_host
      and es = "[]" and s = "start (ping_units no_such_host two_sites)" and get = scripted
      and ws = ?nets and es' = "[]"
      and s' = "start (fetch_units scripted ?nets two_sites)"] idle lw ret
  have more: "(\<exists>e s1. step (length two_sites) e (start (ping_units no_such_host two_sites))
        = Some s1)
     \<and> (\<exists>e s1. step (length two_sites) e
         (start (fetch_units scripted ?nets two_sites)) = Some s1)"
    by blast
  from p f lw ret errs counted more show ?thesis by simp
qed

section \<open>Results about the rankings\<close>






lemma pingLess_key: "pingLess a b \<longleftrightarrow> pingKey a < pingKey b"
  by (auto simp: pingLess_def pingKey_def less_prod_def split: option.splits)

lemma fetchLess_key: "fetchLess a b \<longleftrightarrow> fetchKey a < fetchKey b"
  by (auto simp: fetchLess_def fetchKey_def less_prod_def split: option.splits)

lemma sort_Slice_post_key:
  fixes key :: "'a \<Rightarrow> 'k::linorder"
  assumes key: "\<And>a b. lt a b \<longleftrightarrow> key a < key b"
  shows "sort_Slice_post lt xs ys \<longleftrightarrow> mset ys = mset xs \<and> sorted (map key ys)"
proof -
  have "(\<lambda>a b. \<not> lt b a) = (\<lambda>a b. key a \<le> key b)"
    by (auto simp: key fun_eq_iff)
  then show ?thesis
    by (simp add: sort_Slice_post_def sorted_map)
qed

lemma map_eq_list_all2:
  "map f ys = map f zs \<Longrightarrow> list_all2 (\<lambda>a b. f a = f b) ys zs"
proof (induction ys arbitrary: zs)
  case Nil
  then show ?case by simp
next
  case (Cons y ys)
  then show ?case by (cases zs) auto
qed

lemma ranked_agree:
  fixes key :: "'a \<Rightarrow> 'k::linorder"
  assumes key: "\<And>a b. lt a b \<longleftrightarrow> key a < key b"
    and ys: "sort_Slice_post lt xs ys" and zs: "sort_Slice_post lt xs zs"
  shows "list_all2 (equivalent lt) ys zs"
proof -
  from ys have "mset (map key ys) = mset (map key xs)" "sorted (map key ys)"
    by (simp_all add: sort_Slice_post_key [of lt key, OF key])
  then have a: "sort (map key xs) = map key ys"
    by (rule properties_for_sort)
  from zs have "mset (map key zs) = mset (map key xs)" "sorted (map key zs)"
    by (simp_all add: sort_Slice_post_key [of lt key, OF key])
  then have "sort (map key xs) = map key zs"
    by (rule properties_for_sort)
  with a have "map key ys = map key zs" by simp
  then have "list_all2 (\<lambda>a b. key a = key b) ys zs"
    by (rule map_eq_list_all2)
  moreover have "key a = key b \<Longrightarrow> equivalent lt a b" for a b
    by (simp add: equivalent_def key)
  ultimately show ?thesis
    by (auto elim: list_all2_mono)
qed

lemma ranked_exists:
  fixes key :: "'a \<Rightarrow> 'k::linorder"
  assumes key: "\<And>a b. lt a b \<longleftrightarrow> key a < key b"
  shows "sort_Slice_post lt xs (sort_key key xs)"
  by (simp add: sort_Slice_post_key [of lt key, OF key])

lemma insl_Nil: "insl lt [] x = [x]"
  by (simp add: insl_def)

lemma insl_snoc:
  "insl lt (ys @ [y]) x = (if lt x y then insl lt ys x @ [y] else ys @ [y, x])"
  by (simp add: insl_def)

lemma length_insl: "length (insl lt xs x) = Suc (length xs)"
  by (induction xs rule: rev_induct) (simp_all add: insl_Nil insl_snoc)

lemma Swap_adjacent:
  "Swap (ys @ y # x # zs) (Suc (length ys)) (length ys) = ys @ x # y # zs"
  by (simp add: Swap_def list_update_append nth_append)

lemma sift_insl: "sift lt 0 (xs @ x # zs) (length xs) = insl lt xs x @ zs"
proof (induction xs arbitrary: zs rule: rev_induct)
  case Nil
  show ?case by (simp add: insl_Nil)
next
  case (snoc y ys)
  have nth: "(ys @ y # x # zs) ! Suc (length ys) = x" "(ys @ y # x # zs) ! length ys = y"
    by (simp_all add: nth_append)
  show ?case
  proof (cases "lt x y")
    case True
    have "sift lt 0 ((ys @ [y]) @ x # zs) (length (ys @ [y]))
        = sift lt 0 (Swap (ys @ y # x # zs) (Suc (length ys)) (length ys)) (length ys)"
      using True nth by simp
    also have "\<dots> = sift lt 0 (ys @ x # y # zs) (length ys)"
      by (simp only: Swap_adjacent)
    also have "\<dots> = insl lt ys x @ y # zs"
      by (rule snoc.IH)
    finally show ?thesis using True by (simp add: insl_snoc)
  next
    case False
    then have "sift lt 0 ((ys @ [y]) @ x # zs) (length (ys @ [y])) = ys @ y # x # zs"
      using nth by simp
    with False show ?thesis by (simp add: insl_snoc)
  qed
qed

lemma insertion_from_foldl:
  "insertion_from lt 0 (length xs + length zs) (xs @ zs) (length xs) = foldl (insl lt) xs zs"
proof (induction zs arbitrary: xs)
  case Nil
  show ?case by (subst insertion_from.simps) simp
next
  case (Cons z zs)
  have "insertion_from lt 0 (length xs + length (z # zs)) (xs @ z # zs) (length xs)
      = insertion_from lt 0 (length xs + length (z # zs)) (insl lt xs z @ zs) (Suc (length xs))"
    by (subst insertion_from.simps) (simp add: sift_insl)
  also have "\<dots> = foldl (insl lt) (insl lt xs z) zs"
    using Cons.IH [of "insl lt xs z"] by (simp add: length_insl)
  finally show ?case by simp
qed

lemma insertionSort_func_foldl:
  "insertionSort_func lt xs 0 (length xs) = foldl (insl lt) [] xs"
proof (cases xs)
  case Nil
  then show ?thesis
    unfolding insertionSort_func_def by (subst insertion_from.simps) simp
next
  case (Cons x zs)
  with insertion_from_foldl [of lt "[x]" zs] show ?thesis
    by (simp add: insertionSort_func_def insl_Nil)
qed

lemma mset_insr: "mset (insr lt x ys) = add_mset x (mset ys)"
  by (induction ys) auto

lemma mset_insl: "mset (insl lt xs x) = add_mset x (mset xs)"
  by (simp add: insl_def mset_insr)

lemma mset_foldl_insl: "mset (foldl (insl lt) acc zs) = mset acc + mset zs"
  by (induction zs arbitrary: acc) (simp_all add: mset_insl)

lemma set_insr: "set (insr lt x ys) = insert x (set ys)"
  by (induction ys) auto

lemma sorted_insr:
  fixes key :: "'a \<Rightarrow> 'k::linorder"
  assumes key: "\<And>a b. lt a b \<longleftrightarrow> key a < key b"
  shows "sorted_wrt (\<lambda>a b. key b \<le> key a) ys \<Longrightarrow> sorted_wrt (\<lambda>a b. key b \<le> key a) (insr lt x ys)"
proof (induction ys)
  case Nil
  show ?case by simp
next
  case (Cons y ys)
  then show ?case
    by (auto simp: key set_insr)
qed

lemma sorted_insl:
  fixes key :: "'a \<Rightarrow> 'k::linorder"
  assumes key: "\<And>a b. lt a b \<longleftrightarrow> key a < key b"
    and "sorted (map key xs)"
  shows "sorted (map key (insl lt xs x))"
proof -
  from assms(2) have "sorted_wrt (\<lambda>a b. key a \<le> key b) xs"
    by (simp add: sorted_map)
  then have "sorted_wrt (\<lambda>a b. key b \<le> key a) (rev xs)"
    by (simp add: sorted_wrt_rev)
  then have "sorted_wrt (\<lambda>a b. key b \<le> key a) (insr lt x (rev xs))"
    by (rule sorted_insr [of lt key, OF key])
  then have "sorted_wrt (\<lambda>a b. key a \<le> key b) (rev (insr lt x (rev xs)))"
    by (simp add: sorted_wrt_rev)
  then show ?thesis
    by (simp add: insl_def sorted_map)
qed

lemma sorted_foldl_insl:
  fixes key :: "'a \<Rightarrow> 'k::linorder"
  assumes key: "\<And>a b. lt a b \<longleftrightarrow> key a < key b"
  shows "sorted (map key acc) \<Longrightarrow> sorted (map key (foldl (insl lt) acc zs))"
proof (induction zs arbitrary: acc)
  case Nil
  then show ?case by simp
next
  case (Cons z zs)
  from sorted_insl [of lt key acc z, OF key Cons.prems]
  show ?case by (simp add: Cons.IH)
qed

lemma filter_insr:
  fixes key :: "'a \<Rightarrow> 'k::linorder"
  assumes key: "\<And>a b. lt a b \<longleftrightarrow> key a < key b"
  shows "filter (\<lambda>z. key z = k) (rev (insr lt x ys)) = filter (\<lambda>z. key z = k) (rev ys @ [x])"
  by (induction ys) (auto simp: key)

lemma filter_insl:
  fixes key :: "'a \<Rightarrow> 'k::linorder"
  assumes key: "\<And>a b. lt a b \<longleftrightarrow> key a < key b"
  shows "filter (\<lambda>z. key z = k) (insl lt xs x) = filter (\<lambda>z. key z = k) (xs @ [x])"
  using filter_insr [of lt key k x "rev xs", OF key] by (simp add: insl_def)

lemma filter_foldl_insl:
  fixes key :: "'a \<Rightarrow> 'k::linorder"
  assumes key: "\<And>a b. lt a b \<longleftrightarrow> key a < key b"
  shows "filter (\<lambda>z. key z = k) (foldl (insl lt) acc zs) = filter (\<lambda>z. key z = k) (acc @ zs)"
proof (induction zs arbitrary: acc)
  case Nil
  show ?case by simp
next
  case (Cons z zs)
  have "filter (\<lambda>z. key z = k) (foldl (insl lt) acc (z # zs))
      = filter (\<lambda>z. key z = k) (insl lt acc z @ zs)"
    by (simp add: Cons.IH)
  also have "\<dots> = filter (\<lambda>z. key z = k) ((acc @ [z]) @ zs)"
    using filter_insl [of lt key k acc z, OF key] by simp
  finally show ?case by simp
qed

lemma equivalent_key:
  fixes key :: "'a \<Rightarrow> 'k::linorder"
  assumes key: "\<And>a b. lt a b \<longleftrightarrow> key a < key b"
  shows "equivalent lt x = (\<lambda>z. key z = key x)"
  by (auto simp: equivalent_def key fun_eq_iff)


lemma sort_Slice_short:
  fixes key :: "'a \<Rightarrow> 'k::linorder"
  assumes key: "\<And>a b. lt a b \<longleftrightarrow> key a < key b" and short: "length xs \<le> 12"
  shows "\<exists>ys. sort_Slice lt xs = Some ys \<and> sort_Slice_post lt xs ys
           \<and> order_preserved lt xs ys"
proof -
  let ?ys = "foldl (insl lt) [] xs"
  from short have "sort_Slice lt xs = Some ?ys"
    by (simp add: sort_Slice_def insertionSort_func_foldl)
  moreover have "sort_Slice_post lt xs ?ys"
    using sorted_foldl_insl [of lt key "[]" xs, OF key]
    by (simp add: sort_Slice_post_key [of lt key, OF key] mset_foldl_insl)
  moreover have "order_preserved lt xs ?ys"
    unfolding order_preserved_def
    using filter_foldl_insl [of lt key _ "[]" xs, OF key]
    by (simp add: equivalent_key [of lt key, OF key])
  ultimately show ?thesis by blast
qed

text \<open>
  Claim C4, as amended. Each closure is a strict weak order (irreflexive, transitive,
  with a transitive equivalence). When at most 12 outcomes are ranked, \<open>sort.Slice\<close>
  returns them sorted by the closure and outcomes that the closure treats as equivalent
  keep the order they had at collection. With more outcomes that order need not be kept.
\<close>

theorem stable_up_to_12_outcomes:
  "(length xs \<le> 12 \<longrightarrow>
      (\<exists>ranked. sort_Slice pingLess xs = Some ranked \<and> sort_Slice_post pingLess xs ranked
         \<and> order_preserved pingLess xs ranked))
   \<and> (length xs' \<le> 12 \<longrightarrow>
      (\<exists>ranked. sort_Slice fetchLess xs' = Some ranked \<and> sort_Slice_post fetchLess xs' ranked
         \<and> order_preserved fetchLess xs' ranked))
   \<and> \<not> pingLess a a \<and> (pingLess a b \<and> pingLess b c \<longrightarrow> pingLess a c)
   \<and> (equivalent pingLess p q \<and> equivalent pingLess q r \<longrightarrow> equivalent pingLess p r)
   \<and> \<not> fetchLess a' a' \<and> (fetchLess a' b' \<and> fetchLess b' c' \<longrightarrow> fetchLess a' c')
   \<and> (equivalent fetchLess p' q' \<and> equivalent fetchLess q' r' \<longrightarrow> equivalent fetchLess p' r')"
proof (intro conjI impI)
  assume "length xs \<le> 12"
  then show "\<exists>ranked. sort_Slice pingLess xs = Some ranked \<and> sort_Slice_post pingLess xs ranked
         \<and> order_preserved pingLess xs ranked"
    by (rule sort_Slice_short [of pingLess pingKey, OF pingLess_key])
next
  assume "length xs' \<le> 12"
  then show "\<exists>ranked. sort_Slice fetchLess xs' = Some ranked
         \<and> sort_Slice_post fetchLess xs' ranked \<and> order_preserved fetchLess xs' ranked"
    by (rule sort_Slice_short [of fetchLess fetchKey, OF fetchLess_key])
next
  show "\<not> pingLess a a" by (simp add: pingLess_key)
  show "\<not> fetchLess a' a'" by (simp add: fetchLess_key)
next
  assume "pingLess a b \<and> pingLess b c"
  then show "pingLess a c" by (auto simp: pingLess_key)
next
  assume "equivalent pingLess p q \<and> equivalent pingLess q r"
  then show "equivalent pingLess p r" by (auto simp: equivalent_def pingLess_key)
next
  assume "fetchLess a' b' \<and> fetchLess b' c'"
  then show "fetchLess a' c'" by (auto simp: fetchLess_key)
next
  assume "equivalent fetchLess p' q' \<and> equivalent fetchLess q' r'"
  then show "equivalent fetchLess p' r'" by (auto simp: equivalent_def fetchLess_key)
qed

lemma four_pings_ranked:
  "sort_Slice pingLess
     [ping_ok ''http://a'' 20, ping_failed ''http://x'', ping_ok ''http://b'' 20,
      ping_ok ''http://c'' 50] =
   Some [ping_ok ''http://c'' 50, ping_ok ''http://a'' 20, ping_ok ''http://b'' 20,
         ping_failed ''http://x'']"
  by code_simp

lemma three_fetches_ranked:
  "sort_Slice fetchLess
     [fetch_ok ''http://a'' 512, fetch_failed ''http://x'', fetch_ok ''http://b'' 512] =
   Some [fetch_ok ''http://a'' 512, fetch_ok ''http://b'' 512, fetch_failed ''http://x'']"
  by code_simp

theorem stable_up_to_12_outcomes_witness:
  "length [ping_ok ''http://a'' 20, ping_failed ''http://x'', ping_ok ''http://b'' 20,
           ping_ok ''http://c'' 50] \<le> 12
   \<and> sort_Slice pingLess
     [ping_ok ''http://a'' 20, ping_failed ''http://x'', ping_ok ''http://b'' 20,
      ping_ok ''http://c'' 50] =
     Some [ping_ok ''http://c'' 50, ping_ok ''http://a'' 20, ping_ok ''http://b'' 20,
           ping_failed ''http://x'']
   \<and> sort_Slice_post pingLess
     [ping_ok ''http://a'' 20, ping_failed ''http://x'', ping_ok ''http://b'' 20,
      ping_ok ''http://c'' 50]
     [ping_ok ''http://c'' 50, ping_ok ''http://a'' 20, ping_ok ''http://b'' 20,
      ping_failed ''http://x'']
   \<and> length [fetch_ok ''http://a'' 512, fetch_failed ''http://x'', fetch_ok ''http://b'' 512]
       \<le> 12
   \<and> sort_Slice fetchLess
     [fetch_ok ''http://a'' 512, fetch_failed ''http://x'', fetch_ok ''http://b'' 512] =
     Some [fetch_ok ''http://a'' 512, fetch_ok ''http://b'' 512, fetch_failed ''http://x'']
   \<and> sort_Slice_post fetchLess
     [fetch_ok ''http://a'' 512, fetch_failed ''http://x'', fetch_ok ''http://b'' 512]
     [fetch_ok ''http://a'' 512, fetch_ok ''http://b'' 512, fetch_failed ''http://x'']
   \<and> pingLess (ping_ok ''http://c'' 50) (ping_ok ''http://a'' 20)
   \<and> pingLess (ping_ok ''http://a'' 20) (ping_failed ''http://x'')
   \<and> pingLess (ping_ok ''http://c'' 50) (ping_failed ''http://x'')
   \<and> equivalent pingLess (ping_ok ''http://a'' 20) (ping_ok ''http://b'' 20)
   \<and> equivalent pingLess (ping_ok ''http://b'' 20) (ping_ok ''http://d'' 20)
   \<and> equivalent pingLess (ping_ok ''http://a'' 20) (ping_ok ''http://d'' 20)
   \<and> fetchLess (fetch_ok ''http://c'' 2048) (fetch_ok ''http://a'' 512)
   \<and> fetchLess (fetch_ok ''http://a'' 512) (fetch_failed ''http://x'')
   \<and> fetchLess (fetch_ok ''http://c'' 2048) (fetch_failed ''http://x'')
   \<and> equivalent fetchLess (fetch_failed ''http://x'') (fetch_failed ''http://y'')
   \<and> equivalent fetchLess (fetch_failed ''http://y'') (fetch_failed ''http://z'')
   \<and> equivalent fetchLess (fetch_failed ''http://x'') (fetch_failed ''http://z'')"
proof -
  let ?xs = "[ping_ok ''http://a'' 20, ping_failed ''http://x'', ping_ok ''http://b'' 20,
      ping_ok ''http://c'' 50]"
  let ?fxs = "[fetch_ok ''http://a'' 512, fetch_failed ''http://x'', fetch_ok ''http://b'' 512]"
  have l: "length ?xs \<le> 12" "length ?fxs \<le> 12" by simp_all
  have h: "pingLess (ping_ok ''http://c'' 50) (ping_ok ''http://a'' 20)"
    "pingLess (ping_ok ''http://a'' 20) (ping_failed ''http://x'')"
    "equivalent pingLess (ping_ok ''http://a'' 20) (ping_ok ''http://b'' 20)"
    "equivalent pingLess (ping_ok ''http://b'' 20) (ping_ok ''http://d'' 20)"
    "fetchLess (fetch_ok ''http://c'' 2048) (fetch_ok ''http://a'' 512)"
    "fetchLess (fetch_ok ''http://a'' 512) (fetch_failed ''http://x'')"
    "equivalent fetchLess (fetch_failed ''http://x'') (fetch_failed ''http://y'')"
    "equivalent fetchLess (fetch_failed ''http://y'') (fetch_failed ''http://z'')"
    by (simp_all add: equivalent_def pingLess_def fetchLess_def ping_ok_def ping_failed_def
        fetch_ok_def fetch_failed_def new_PingResult_def new_FetchResult_def)
  note t = stable_up_to_12_outcomes [where xs = ?xs and xs' = ?fxs
      and a = "ping_ok ''http://c'' 50" and b = "ping_ok ''http://a'' 20"
      and c = "ping_failed ''http://x''"
      and p = "ping_ok ''http://a'' 20" and q = "ping_ok ''http://b'' 20"
      and r = "ping_ok ''http://d'' 20"
      and a' = "fetch_ok ''http://c'' 2048" and b' = "fetch_ok ''http://a'' 512"
      and c' = "fetch_failed ''http://x''"
      and p' = "fetch_failed ''http://x''" and q' = "fetch_failed ''http://y''"
      and r' = "fetch_failed ''http://z''"]
  from t l four_pings_ranked
  have p: "sort_Slice_post pingLess ?xs
      [ping_ok ''http://c'' 50, ping_ok ''http://a'' 20, ping_ok ''http://b'' 20,
       ping_failed ''http://x'']"
    by auto
  from t l three_fetches_ranked
  have f: "sort_Slice_post fetchLess ?fxs
      [fetch_ok ''http://a'' 512, fetch_ok ''http://b'' 512, fetch_failed ''http://x'']"
    by auto
  from t h have more: "pingLess (ping_ok ''http://c'' 50) (ping_failed ''http://x'')
      \<and> equivalent pingLess (ping_ok ''http://a'' 20) (ping_ok ''http://d'' 20)
      \<and> fetchLess (fetch_ok ''http://c'' 2048) (fetch_failed ''http://x'')
      \<and> equivalent fetchLess (fetch_failed ''http://x'') (fetch_failed ''http://z'')"
    by blast
  from l four_pings_ranked three_fetches_ranked p f h more show ?thesis
    by (simp only: simp_thms)
qed

text \<open>
  Claim C4 as stated fails on the code with 13 outcomes. Twelve outcomes without error
  and with the same \<open>AvgRtt\<close> are collected, then one with a larger \<open>AvgRtt\<close>.
  \<open>partition_func\<close> first swaps the outcome at index 0 with the pivot at index 6, and
  the twelve equivalent outcomes do not come out in the order of their collection.
\<close>

theorem thirteen_outcomes_reordered:
  "sort_Slice pingLess
     [ping_ok ''h00'' 20, ping_ok ''h01'' 20, ping_ok ''h02'' 20, ping_ok ''h03'' 20,
      ping_ok ''h04'' 20, ping_ok ''h05'' 20, ping_ok ''h06'' 20, ping_ok ''h07'' 20,
      ping_ok ''h08'' 20, ping_ok ''h09'' 20, ping_ok ''h10'' 20, ping_ok ''h11'' 20,
      ping_ok ''h12'' 50] =
   Some
     [ping_ok ''h12'' 50, ping_ok ''h06'' 20, ping_ok ''h02'' 20, ping_ok ''h03'' 20,
      ping_ok ''h04'' 20, ping_ok ''h05'' 20, ping_ok ''h00'' 20, ping_ok ''h07'' 20,
      ping_ok ''h08'' 20, ping_ok ''h09'' 20, ping_ok ''h10'' 20, ping_ok ''h11'' 20,
      ping_ok ''h01'' 20]
   \<and> equivalent pingLess (ping_ok ''h00'' 20) (ping_ok ''h06'' 20)
   \<and> \<not> order_preserved pingLess
     [ping_ok ''h00'' 20, ping_ok ''h01'' 20, ping_ok ''h02'' 20, ping_ok ''h03'' 20,
      ping_ok ''h04'' 20, ping_ok ''h05'' 20, ping_ok ''h06'' 20, ping_ok ''h07'' 20,
      ping_ok ''h08'' 20, ping_ok ''h09'' 20, ping_ok ''h10'' 20, ping_ok ''h11'' 20,
      ping_ok ''h12'' 50]
     [ping_ok ''h12'' 50, ping_ok ''h06'' 20, ping_ok ''h02'' 20, ping_ok ''h03'' 20,
      ping_ok ''h04'' 20, ping_ok ''h05'' 20, ping_ok ''h00'' 20, ping_ok ''h07'' 20,
      ping_ok ''h08'' 20, ping_ok ''h09'' 20, ping_ok ''h10'' 20, ping_ok ''h11'' 20,
      ping_ok ''h01'' 20]"
  by code_simp




end
